theory Spec2Isabelle
  imports Main "HOL-Library.Multiset"
begin

section \<open>Python values and exceptions\<close>

text \<open>
  The exceptions of the Python code that the modelled functions can raise. A function
  that can raise returns \<open>error + 'a\<close>, with \<open>Inl\<close> for the exception.
  Strings are lists of 8-bit characters: the model covers texts whose code points are
  below 256, and a position is an index into that list, as it is an index into the
  Python \<open>str\<close>.
\<close>

datatype error = TypeError | ValueError | KeyError | IndexError | AttributeError | IntegrityError
  | FileNotFoundError | RecursionError

definition ebind :: "error + 'a \<Rightarrow> ('a \<Rightarrow> error + 'b) \<Rightarrow> error + 'b" where
  "ebind m f = (case m of Inl e \<Rightarrow> Inl e | Inr x \<Rightarrow> f x)"

text \<open>\<open>len(x)\<close> where \<open>x\<close> may be \<open>None\<close>: \<open>len(None)\<close> raises TypeError.\<close>

definition py_len :: "'a list option \<Rightarrow> error + int" where
  "py_len x = (case x of None \<Rightarrow> Inl TypeError | Some xs \<Rightarrow> Inr (int (length xs)))"

text \<open>\<open>xs[i]\<close> for a non-negative literal index \<open>i\<close>: IndexError out of range.\<close>

definition py_index :: "'a list \<Rightarrow> nat \<Rightarrow> error + 'a" where
  "py_index xs i = (if i < length xs then Inr (xs ! i) else Inl IndexError)"

text \<open>
  \<open>s[a:b]\<close> for integers \<open>a\<close> and \<open>b\<close>: a negative bound counts from the end, and
  both bounds are clamped to the string.
\<close>

definition slice_bound :: "nat \<Rightarrow> int \<Rightarrow> nat" where
  "slice_bound n i = (if i < 0 then nat (max 0 (int n + i)) else min n (nat i))"

definition py_slice :: "'a list \<Rightarrow> int \<Rightarrow> int \<Rightarrow> 'a list" where
  "py_slice s a b =
     (let lo = slice_bound (length s) a; hi = slice_bound (length s) b
      in take (hi - lo) (drop lo s))"

text \<open>\<open>s[a:]\<close>, and \<open>s[-k]\<close> for a literal \<open>k\<close> above 0: IndexError on a shorter list.\<close>

definition py_slice_from :: "'a list \<Rightarrow> int \<Rightarrow> 'a list" where
  "py_slice_from s a = drop (slice_bound (length s) a) s"

definition py_index_neg :: "'a list \<Rightarrow> nat \<Rightarrow> error + 'a" where
  "py_index_neg xs k = (if k \<le> length xs then Inr (xs ! (length xs - k)) else Inl IndexError)"

definition is_digit :: "char \<Rightarrow> bool" where
  "is_digit c = (c \<in> set ''0123456789'')"

text \<open>The characters \<open>str.isspace\<close> and the regular expression class \<open>\s\<close> accept, below 256.\<close>

definition is_space :: "char \<Rightarrow> bool" where
  "is_space c = (of_char c \<in> set [9, 10, 11, 12, 13, 28, 29, 30, 31, 32, 133, 160 :: nat])"

definition digit_val :: "char \<Rightarrow> int" where
  "digit_val c = int (of_char c) - 48"

definition digits_val :: "string \<Rightarrow> int" where
  "digits_val s = foldl (\<lambda>a c. 10 * a + digit_val c) 0 s"

text \<open>
  \<open>int(s)\<close> on a string: surrounding whitespace is stripped, one sign is allowed, and
  the digits may be grouped by single underscores; anything else raises ValueError.
\<close>

fun digit_groups :: "string \<Rightarrow> bool" where
  "digit_groups [] = False"
| "digit_groups [c] = is_digit c"
| "digit_groups (c # d # s) =
     (is_digit c \<and> (if d = CHR ''_'' then digit_groups s else digit_groups (d # s)))"

definition strip :: "string \<Rightarrow> string" where
  "strip s = rev (dropWhile is_space (rev (dropWhile is_space s)))"

definition int_unsigned :: "string \<Rightarrow> error + int" where
  "int_unsigned s =
     (if digit_groups s then Inr (digits_val (filter is_digit s)) else Inl ValueError)"

definition py_int_str :: "string \<Rightarrow> error + int" where
  "py_int_str s =
     (case strip s of
        [] \<Rightarrow> Inl ValueError
      | c # r \<Rightarrow>
          if c = CHR ''-'' then ebind (int_unsigned r) (\<lambda>v. Inr (- v))
          else if c = CHR ''+'' then int_unsigned r
          else int_unsigned (c # r))"

text \<open>\<open>int(x)\<close> where \<open>x\<close> is an attribute value that may be \<open>None\<close>.\<close>

definition py_int :: "string option \<Rightarrow> error + int" where
  "py_int x = (case x of None \<Rightarrow> Inl TypeError | Some s \<Rightarrow> py_int_str s)"

text \<open>\<open>s.split(c)\<close> for a one-character separator.\<close>

fun split_on :: "char \<Rightarrow> string \<Rightarrow> string list" where
  "split_on c [] = [[]]"
| "split_on c (x # xs) =
     (case split_on c xs of
        [] \<Rightarrow> [[]]
      | w # ws \<Rightarrow> if x = c then [] # w # ws else (x # w) # ws)"

section \<open>Regular expressions of the time stamps\<close>

text \<open>
  The six patterns of \<open>get_transcript_timepoints\<close> are sequences of single characters,
  digits \<open>[0-9]\<close>, optional digits \<open>[0-9]?\<close> and whitespace \<open>\s\<close>; \<open>[0-9]{1,3}\<close> is one
  digit followed by two optional ones (both are greedy). \<open>match_here\<close> gives the length
  of the match that Python's backtracking matcher finds at the start of the string:
  an optional digit is taken first, and given up if the rest then fails.
\<close>

datatype pat = Lit char | Digit | OptDigit | Space

fun match_here :: "pat list \<Rightarrow> string \<Rightarrow> nat option" where
  "match_here [] s = Some 0"
| "match_here (Lit c # ps) s =
     (case s of [] \<Rightarrow> None
      | x # xs \<Rightarrow> if x = c then map_option Suc (match_here ps xs) else None)"
| "match_here (Digit # ps) s =
     (case s of [] \<Rightarrow> None
      | x # xs \<Rightarrow> if is_digit x then map_option Suc (match_here ps xs) else None)"
| "match_here (Space # ps) s =
     (case s of [] \<Rightarrow> None
      | x # xs \<Rightarrow> if is_space x then map_option Suc (match_here ps xs) else None)"
| "match_here (OptDigit # ps) s =
     (case (case s of [] \<Rightarrow> None
            | x # xs \<Rightarrow> if is_digit x then map_option Suc (match_here ps xs) else None) of
        Some n \<Rightarrow> Some n
      | None \<Rightarrow> match_here ps s)"

text \<open>
  \<open>re.finditer\<close>: the non-overlapping matches from left to right, each with its start
  position and its text. \<open>skip\<close> counts the characters of the last match still to pass.
  None of the six patterns matches the empty string.
\<close>

fun finditer_from :: "pat list \<Rightarrow> nat \<Rightarrow> nat \<Rightarrow> string \<Rightarrow> (nat \<times> string) list" where
  "finditer_from p pos skip [] = []"
| "finditer_from p pos (Suc k) (x # xs) = finditer_from p (Suc pos) k xs"
| "finditer_from p pos 0 (x # xs) =
     (case match_here p (x # xs) of
        Some (Suc n) \<Rightarrow> (pos, take (Suc n) (x # xs)) # finditer_from p (Suc pos) n xs
      | _ \<Rightarrow> finditer_from p (Suc pos) 0 xs)"

definition finditer :: "pat list \<Rightarrow> string \<Rightarrow> (nat \<times> string) list" where
  "finditer p text = finditer_from p 0 0 text"

definition D2 :: "pat list" where
  "D2 = [Digit, Digit]"

definition mmss1 :: "pat list" where
  "mmss1 = [Lit CHR ''['', OptDigit, Digit, Lit CHR '':''] @ D2 @ [Lit CHR '']'']"

definition hhmmss1 :: "pat list" where
  "hhmmss1 = [Lit CHR ''[''] @ D2 @ [Lit CHR '':''] @ D2 @ [Lit CHR '':''] @ D2 @ [Lit CHR '']'']"

definition mmss2 :: "pat list" where
  "mmss2 = [Lit CHR ''['', OptDigit, Digit, Lit CHR ''.''] @ D2 @ [Lit CHR '']'']"

definition hhmmss2 :: "pat list" where
  "hhmmss2 = [Lit CHR ''[''] @ D2 @ [Lit CHR ''.''] @ D2 @ [Lit CHR ''.''] @ D2 @ [Lit CHR '']'']"

definition hhmmss_sss :: "pat list" where
  "hhmmss_sss = [Lit CHR ''#''] @ D2 @ [Lit CHR '':''] @ D2 @ [Lit CHR '':''] @ D2
     @ [Lit CHR ''.'', Digit, OptDigit, OptDigit, Lit CHR ''#'']"

definition srt_stamp :: "pat list" where
  "srt_stamp = D2 @ [Lit CHR '':''] @ D2 @ [Lit CHR '':''] @ D2 @ [Lit CHR '','', Digit] @ D2"

definition srt :: "pat list" where
  "srt = srt_stamp @ [Space, Lit CHR ''-'', Lit CHR ''-'', Lit CHR ''>'', Space] @ srt_stamp"

section \<open>Time points of a transcript (export)\<close>

text \<open>
  The media dictionary, with the two entries \<open>get_transcript_timepoints\<close> reads.
  \<open>fulltext\<close> is \<open>None\<close> for a source without text.
\<close>

record media =
  name :: string
  fulltext :: "string option"

text \<open>\<open>stamp = match.group()[1:-1]\<close>, the match without its first and last character.\<close>

definition inner :: "string \<Rightarrow> string" where
  "inner g = py_slice g 1 (- 1)"

text \<open>
  The body of each of the six \<open>for\<close> statements: the milliseconds of one match. The
  \<open>except KeyError\<close> of the source catches nothing that \<open>int\<close> or an index can raise, so
  a ValueError or IndexError would leave the function.
\<close>

definition msecs_ms :: "char \<Rightarrow> string \<Rightarrow> error + int" where
  "msecs_ms sep g =
     (let s = split_on sep (inner g) in
      ebind (py_index s 0) (\<lambda>s0. ebind (py_int_str s0) (\<lambda>m.
      ebind (py_index s 1) (\<lambda>s1. ebind (py_int_str s1) (\<lambda>sec.
      Inr ((m * 60 + sec) * 1000))))))"

definition msecs_hms :: "char \<Rightarrow> string \<Rightarrow> error + int" where
  "msecs_hms sep g =
     (let s = split_on sep (inner g) in
      ebind (py_index s 0) (\<lambda>s0. ebind (py_int_str s0) (\<lambda>h.
      ebind (py_index s 1) (\<lambda>s1. ebind (py_int_str s1) (\<lambda>m.
      ebind (py_index s 2) (\<lambda>s2. ebind (py_int_str s2) (\<lambda>sec.
      Inr ((h * 3600 + m * 60 + sec) * 1000))))))))"

definition pad_msecs :: "string \<Rightarrow> string" where
  "pad_msecs t =
     (let t1 = (if length t = 1 then t @ ''00'' else t)
      in if length t1 = 2 then t1 @ ''0'' else t1)"

definition msecs_sss :: "string \<Rightarrow> error + int" where
  "msecs_sss g =
     (let text_hms = split_on CHR '':'' (inner g) in
      ebind (py_index text_hms 2) (\<lambda>h2.
      ebind (py_index (split_on CHR ''.'' h2) 0) (\<lambda>text_secs.
      ebind (py_index (split_on CHR ''.'' h2) 1) (\<lambda>text_msecs0.
      let text_msecs = pad_msecs text_msecs0 in
      ebind (py_index text_hms 0) (\<lambda>s0. ebind (py_int_str s0) (\<lambda>h.
      ebind (py_index text_hms 1) (\<lambda>s1. ebind (py_int_str s1) (\<lambda>m.
      ebind (py_int_str text_secs) (\<lambda>sec. ebind (py_int_str text_msecs) (\<lambda>ms.
      Inr ((h * 3600 + m * 60 + sec) * 1000 + ms)))))))))))"

definition msecs_srt :: "string \<Rightarrow> error + int" where
  "msecs_srt g =
     (let s = split_on CHR '':'' (py_slice g 0 12) in
      ebind (py_index s 2) (\<lambda>s2x.
      let s2 = split_on CHR '','' s2x in
      ebind (py_index s 0) (\<lambda>s0. ebind (py_int_str s0) (\<lambda>h.
      ebind (py_index s 1) (\<lambda>s1. ebind (py_int_str s1) (\<lambda>m.
      ebind (py_index s2 0) (\<lambda>a. ebind (py_int_str a) (\<lambda>sec.
      ebind (py_index s2 1) (\<lambda>b. ebind (py_int_str b) (\<lambda>ms.
      Inr ((h * 3600 + m * 60 + sec) * 1000 + ms)))))))))))"

text \<open>One \<open>for match in re.finditer(...)\<close> loop, appending to \<open>time_pos\<close>.\<close>

fun stamp_loop :: "(string \<Rightarrow> error + int) \<Rightarrow> (nat \<times> string) list \<Rightarrow> (int \<times> int) list
    \<Rightarrow> error + (int \<times> int) list" where
  "stamp_loop f [] time_pos = Inr time_pos"
| "stamp_loop f ((start, g) # ms) time_pos =
     ebind (f g) (\<lambda>msecs. stamp_loop f ms (time_pos @ [(int start, msecs)]))"

text \<open>
  The length of the media comes from the media player library, outside the program:
  \<open>probe\<close> is what \<open>get_duration()\<close> returns, or \<open>None\<close> when anything in the
  \<open>try\<close> block raises (the media is not found), which leaves \<open>media_length\<close> at 0.
\<close>

definition media_length_of :: "int option \<Rightarrow> int" where
  "media_length_of probe =
     (case probe of None \<Rightarrow> 0
      | Some d \<Rightarrow> if d - 1 = - 1 then 0 else d - 1)"

definition get_transcript_timepoints :: "int option \<Rightarrow> media \<Rightarrow> error + (int \<times> int) list" where
  "get_transcript_timepoints probe m =
     ebind (py_len (fulltext m)) (\<lambda>n.
       if n = 0 then Inr []
       else case fulltext m of None \<Rightarrow> Inr [] | Some text \<Rightarrow>
         ebind (stamp_loop (msecs_ms CHR '':'') (finditer mmss1 text) [(0, 0)]) (\<lambda>t1.
         ebind (stamp_loop (msecs_hms CHR '':'') (finditer hhmmss1 text) t1) (\<lambda>t2.
         ebind (stamp_loop (msecs_ms CHR ''.'') (finditer mmss2 text) t2) (\<lambda>t3.
         ebind (stamp_loop (msecs_hms CHR ''.'') (finditer hhmmss2 text) t3) (\<lambda>t4.
         ebind (stamp_loop msecs_sss (finditer hhmmss_sss text) t4) (\<lambda>t5.
         ebind (stamp_loop msecs_srt (finditer srt text) t5) (\<lambda>t6.
         let time_pos = t6 @ [(int (length text) - 1, media_length_of probe)]
         in Inr (sort_key fst time_pos))))))))"

section \<open>The GUID generator (export)\<close>

text \<open>
  \<open>uuid.uuid4().hex\<close> is a random source outside the program. It is modelled as the
  sequence \<open>uuid4_hex\<close> of the values it returns, call after call; the state of the
  exporter holds the number of values drawn so far and the list \<open>self.guids\<close> of the
  GUIDs issued. \<open>self.guids\<close> is a class attribute, so it may be non-empty when an
  export starts.
\<close>

fun py_join :: "string \<Rightarrow> string list \<Rightarrow> string" where
  "py_join sep [] = []"
| "py_join sep [x] = x"
| "py_join sep (x # y # ys) = x @ sep @ py_join sep (y # ys)"

definition format_guid :: "string \<Rightarrow> string" where
  "format_guid v =
     py_join ''-'' [py_slice v 0 8, py_slice v 8 12, py_slice v 12 16, py_slice v 16 20,
                    py_slice v 20 33]"

record guid_state =
  drawn :: nat
  guids :: "string list"

text \<open>
  The \<open>while duplicated\<close> loop: \<open>guid\<close> is the current candidate and \<open>k\<close> the number of
  values drawn. The loop has no bound in the source; a run that never ends is \<open>None\<close>.
\<close>

partial_function (option) while_duplicated ::
    "(nat \<Rightarrow> string) \<Rightarrow> string list \<Rightarrow> nat \<Rightarrow> string \<Rightarrow> (string \<times> nat) option" where
  "while_duplicated uuid4_hex gs k guid =
     (if guid \<in> set gs then while_duplicated uuid4_hex gs (Suc k) (format_guid (uuid4_hex k))
      else Some (guid, k))"

definition create_guid :: "(nat \<Rightarrow> string) \<Rightarrow> guid_state \<Rightarrow> (string \<times> guid_state) option" where
  "create_guid uuid4_hex st =
     (case while_duplicated uuid4_hex (guids st) (Suc (drawn st))
             (format_guid (uuid4_hex (drawn st))) of
        None \<Rightarrow> None
      | Some (guid, k) \<Rightarrow> Some (guid, \<lparr>drawn = k, guids = guids st @ [guid]\<rparr>))"

text \<open>\<open>n\<close> calls of \<open>create_guid\<close> one after the other, with the GUIDs they return.\<close>

fun create_guids :: "(nat \<Rightarrow> string) \<Rightarrow> nat \<Rightarrow> guid_state \<Rightarrow> (string list \<times> guid_state) option" where
  "create_guids uuid4_hex 0 st = Some ([], st)"
| "create_guids uuid4_hex (Suc n) st =
     (case create_guid uuid4_hex st of
        None \<Rightarrow> None
      | Some (g, st') \<Rightarrow>
          (case create_guids uuid4_hex n st' of
             None \<Rightarrow> None
           | Some (gs, st'') \<Rightarrow> Some (g # gs, st'')))"

text \<open>
  The canonical pattern of the docstring: groups of 8, 4, 4, 4 and 12 hexadecimal
  digits, separated by hyphens. \<open>hex32\<close> is what \<open>uuid4().hex\<close> returns: 32 hexadecimal
  digits.
\<close>

definition is_hex :: "char \<Rightarrow> bool" where
  "is_hex c = (c \<in> set ''0123456789abcdefABCDEF'')"

fun hex_groups :: "nat list \<Rightarrow> string \<Rightarrow> bool" where
  "hex_groups [] s = (s = [])"
| "hex_groups [n] s = (length s = n \<and> list_all is_hex s)"
| "hex_groups (n # m # ns) s =
     (length (take n s) = n \<and> list_all is_hex (take n s) \<and>
      (case drop n s of [] \<Rightarrow> False | c # r \<Rightarrow> c = CHR ''-'' \<and> hex_groups (m # ns) r))"

definition canonical_guid :: "string \<Rightarrow> bool" where
  "canonical_guid g = hex_groups [8, 4, 4, 4, 12] g"

definition hex32 :: "string \<Rightarrow> bool" where
  "hex32 v = (length v = 32 \<and> list_all is_hex v)"

text \<open>A source of 32-digit values for examples: the last digit counts the draws.\<close>

definition counting_hex :: "nat \<Rightarrow> string" where
  "counting_hex k = ''0000000000000000000000000000000'' @ [''0123456789abcdef'' ! (k mod 16)]"

section \<open>XML elements and the relational store (import)\<close>

text \<open>
  An element of the parsed XML tree, as the importer reads it: its tag with the
  namespace in braces, its attributes, its text (\<open>None\<close> when empty) and its children.
  \<open>get e k\<close> is \<open>e.get(k)\<close>: \<open>None\<close> when the attribute is absent.
\<close>

datatype element =
  Element (el_tag: string) (el_attrib: "(string \<times> string) list") (el_text: "string option")
    (el_children: "element list")

definition get :: "element \<Rightarrow> string \<Rightarrow> string option" where
  "get e k = map_of (el_attrib e) k"

definition project_ns :: string where
  "project_ns = ''{urn:QDA-XML:project:1.0}''"

definition codebook_ns :: string where
  "codebook_ns = ''{urn:QDA-XML:codebook:1:0}''"

definition is_description :: "element \<Rightarrow> bool" where
  "is_description e =
     (el_tag e = codebook_ns @ ''Description'' \<or> el_tag e = project_ns @ ''Description'')"

definition is_code :: "element \<Rightarrow> bool" where
  "is_code e = (el_tag e = codebook_ns @ ''Code'' \<or> el_tag e = project_ns @ ''Code'')"

text \<open>
  Modelled from the spec: the tables of the SQLite store, whose declarations are not in
  the source files. Each table is the list of its rows in insertion order, with the
  columns the importer writes. The spec gives the two constraints that are modelled: a
  code name is unique within the store, as is a category name (a uniqueness violation
  on inserting a code or a category), and a coded text span is unique in (code, source,
  start, end, owner). SQL \<open>NULL\<close> is \<open>None\<close>, and a \<open>NULL\<close> name violates no uniqueness
  constraint. A new row gets the row id one above the largest in its table. The table
  \<open>source\<close> has the columns the spec lists for a source (id, name, fulltext, mediapath,
  memo, owner, date, av_text_id); the spec names no constraint on it.
\<close>

record source_row =
  so_id :: int
  so_name :: "string option"
  so_fulltext :: "string option"
  so_mediapath :: "string option"
  so_memo :: "string option"
  so_owner :: "string option"
  so_date :: string
  so_av_text_id :: "int option"

record code_cat_row =
  cc_catid :: int
  cc_name :: "string option"
  cc_memo :: "string option"
  cc_owner :: string
  cc_date :: string
  cc_supercatid :: "int option"

record code_name_row =
  cn_cid :: int
  cn_name :: "string option"
  cn_memo :: "string option"
  cn_owner :: string
  cn_date :: string
  cn_catid :: "int option"
  cn_color :: string

record code_text_row =
  ct_cid :: "int option"
  ct_fid :: int
  ct_seltext :: string
  ct_pos0 :: int
  ct_pos1 :: int
  ct_owner :: "string option"
  ct_date :: string
  ct_memo :: string
  ct_avid :: "int option"

record code_image_row =
  ci_id :: int
  ci_x1 :: int
  ci_y1 :: int
  ci_width :: int
  ci_height :: int
  ci_cid :: "int option"
  ci_memo :: "string option"
  ci_date :: string
  ci_owner :: "string option"

record annotation_row =
  an_fid :: int
  an_pos0 :: int
  an_pos1 :: int
  an_memo :: string
  an_owner :: "string option"
  an_date :: string

record attribute_row =
  at_name :: "string option"
  at_attr_type :: string
  at_value :: "string option"
  at_id :: "int option"
  at_date :: string
  at_owner :: "string option"

record attribute_type_row =
  aty_name :: "string option"
  aty_case_or_file :: string

record case_row =
  ca_caseid :: int
  ca_name :: "string option"
  ca_memo :: "string option"
  ca_owner :: "string option"
  ca_date :: string

record store =
  source :: "source_row list"
  code_cat :: "code_cat_row list"
  code_name :: "code_name_row list"
  code_text :: "code_text_row list"
  code_image :: "code_image_row list"
  annotation :: "annotation_row list"
  attribute :: "attribute_row list"
  attribute_type :: "attribute_type_row list"
  cases :: "case_row list"

definition next_rowid :: "int list \<Rightarrow> int" where
  "next_rowid ids = foldr max ids 0 + 1"

definition name_taken :: "string option \<Rightarrow> string option list \<Rightarrow> bool" where
  "name_taken n ns = (n \<noteq> None \<and> n \<in> set ns)"

text \<open>
  \<open>insert into code_cat (name, memo, owner, date, supercatid) values (?,?,'',?,?)\<close>
  followed by \<open>select last_insert_rowid()\<close>.
\<close>

definition insert_code_cat ::
    "string option \<Rightarrow> string option \<Rightarrow> string \<Rightarrow> int option \<Rightarrow> store \<Rightarrow> error + (int \<times> store)" where
  "insert_code_cat n memo date supercat db =
     (if name_taken n (map cc_name (code_cat db)) then Inl IntegrityError
      else
        let i = next_rowid (map cc_catid (code_cat db));
            row = \<lparr>cc_catid = i, cc_name = n, cc_memo = memo, cc_owner = [], cc_date = date,
                   cc_supercatid = supercat\<rparr>
        in Inr (i, db\<lparr>code_cat := code_cat db @ [row]\<rparr>))"

text \<open>
  \<open>insert into code_name (name,memo,owner,date,catid,color) values (?,?,'',?,?,?)\<close>
  followed by \<open>select last_insert_rowid()\<close>.
\<close>

definition insert_code_name ::
    "string option \<Rightarrow> string option \<Rightarrow> string \<Rightarrow> int option \<Rightarrow> string \<Rightarrow> store
     \<Rightarrow> error + (int \<times> store)" where
  "insert_code_name n memo date cat color db =
     (if name_taken n (map cn_name (code_name db)) then Inl IntegrityError
      else
        let i = next_rowid (map cn_cid (code_name db));
            row = \<lparr>cn_cid = i, cn_name = n, cn_memo = memo, cn_owner = [], cn_date = date,
                   cn_catid = cat, cn_color = color\<rparr>
        in Inr (i, db\<lparr>code_name := code_name db @ [row]\<rparr>))"

text \<open>
  The importer object: the connection to the store and the lists it keeps while it
  reads the file. An entry of \<open>codes\<close> is a GUID with the code id it was given, an
  entry of \<open>users\<close> a GUID with a name, an entry of \<open>sources\<close> a GUID with the source
  id, an entry of \<open>variables\<close> a GUID with the variable's name. An entry of
  \<open>file_vars\<close> has the keys \<open>file_guid\<close>, \<open>var_guid\<close> and \<open>value\<close>, and the key
  \<open>name\<close> only when the variable was found: \<open>fv_name\<close> is \<open>None\<close> when the key is
  absent. \<open>annotations\<close> pairs a \<open>NoteRef\<close> GUID with the GUID of its text source.
  \<open>project_path\<close> is \<open>self.app.project_path\<close>, the folder of the project that is
  imported into; \<open>folder_name\<close> and \<open>sources_name\<close> give the folder the archive was
  unpacked to. \<open>files\<close> is the file system as far as the importer reads and writes it:
  the text of the file at a path, \<open>None\<close> where there is no file. Folders are taken to
  exist.
\<close>

record file_var =
  fv_file_guid :: "string option"
  fv_var_guid :: "string option"
  fv_value :: "string option"
  fv_name :: "string option option"

record case_item =
  ci_name :: "string option"
  ci_guid :: "string option"
  ci_caseid :: int

record importer =
  conn :: store
  codes :: "(string option \<times> int) list"
  users :: "(string option \<times> string option) list"
  sources :: "(string option \<times> int) list"
  variables :: "(string option \<times> string option) list"
  file_vars :: "file_var list"
  case_list :: "case_item list"
  annotations :: "(string option \<times> string option) list"
  codername :: string
  project_path :: string
  folder_name :: string
  sources_name :: string
  files :: "string \<rightharpoonup> string"

section \<open>Codebook import: \<open>sub_codes\<close>\<close>

text \<open>
  \<open>description\<close> is the text of the last Description child, and the empty string
  without one; the text of an empty Description element is \<open>None\<close>.
\<close>

definition description_of :: "element list \<Rightarrow> string option" where
  "description_of elements =
     foldl (\<lambda>d e. if is_description e then el_text e else d) (Some []) elements"

definition color_of :: "element \<Rightarrow> string" where
  "color_of parent = (case get parent ''color'' of None \<Rightarrow> ''#999999'' | Some c \<Rightarrow> c)"

text \<open>
  The \<open>try\<close> block that inserts a code: on success the code id is registered under the
  element's GUID and counted; an IntegrityError is caught and nothing changes.
\<close>

definition try_insert_code ::
    "string \<Rightarrow> element \<Rightarrow> string option \<Rightarrow> string option \<Rightarrow> int option \<Rightarrow> importer
     \<Rightarrow> nat \<times> importer" where
  "try_insert_code now_date parent n description cat st =
     (case insert_code_name n description now_date cat (color_of parent) (conn st) of
        Inl err \<Rightarrow> (0, st)
      | Inr (cid, db) \<Rightarrow>
          (1, st\<lparr>conn := db, codes := codes st @ [(get parent ''guid'', cid)]\<rparr>))"

text \<open>
  The \<open>try\<close> block that inserts a category: the new id and 1 on success,
  \<open>None\<close> and 0 when the IntegrityError is caught.
\<close>

definition try_insert_category ::
    "string \<Rightarrow> string option \<Rightarrow> string option \<Rightarrow> int option \<Rightarrow> importer
     \<Rightarrow> int option \<times> nat \<times> importer" where
  "try_insert_category now_date n description cat_id st =
     (case insert_code_cat n description now_date cat_id (conn st) of
        Inl err \<Rightarrow> (None, 0, st)
      | Inr (i, db) \<Rightarrow> (Some i, 1, st\<lparr>conn := db\<rparr>))"

text \<open>
  The part of the category branch before the loop over the children: the category
  row, and for a codable category the code row under it. It gives
  \<open>last_insert_id\<close>, the counter and the new state.
\<close>

definition insert_category_and_code ::
    "string \<Rightarrow> element \<Rightarrow> int option \<Rightarrow> importer \<Rightarrow> int option \<times> nat \<times> importer" where
  "insert_category_and_code now_date parent cat_id st =
     (let description = description_of (el_children parent); n = get parent ''name'' in
      if n \<noteq> None then
        (case try_insert_category now_date n description cat_id st of
           (last_insert_id, c1, st1) \<Rightarrow>
             if get parent ''isCodable'' = Some ''true'' then
               (case try_insert_code now_date parent n description last_insert_id st1 of
                  (c2, st2) \<Rightarrow> (last_insert_id, c1 + c2, st2))
             else (last_insert_id, c1, st1))
      else (None, 0, st))"

fun sub_codes :: "string \<Rightarrow> element \<Rightarrow> int option \<Rightarrow> importer \<Rightarrow> nat \<times> importer"
  and sub_codes_children ::
    "string \<Rightarrow> element list \<Rightarrow> int option \<Rightarrow> importer \<Rightarrow> nat \<times> importer" where
  "sub_codes now_date (Element t a x elements) cat_id st =
     (let parent = Element t a x elements; description = description_of elements in
      if list_ex is_code elements then
        (case insert_category_and_code now_date parent cat_id st of
           (last_insert_id, counter, st1) \<Rightarrow>
             (case sub_codes_children now_date elements last_insert_id st1 of
                (c, st2) \<Rightarrow> (counter + c, st2)))
      else if elements = [] then
        try_insert_code now_date parent (get parent ''name'') description cat_id st
      else if length elements = 1 \<and> is_description (hd elements) then
        try_insert_code now_date parent (get parent ''name'') description cat_id st
      else (0, st))"
| "sub_codes_children now_date [] last_insert_id st = (0, st)"
| "sub_codes_children now_date (e # es) last_insert_id st =
     (if \<not> is_description e then
        (case sub_codes now_date e last_insert_id st of
           (c, st1) \<Rightarrow>
             (case sub_codes_children now_date es last_insert_id st1 of
                (c', st2) \<Rightarrow> (c + c', st2)))
      else sub_codes_children now_date es last_insert_id st)"

text \<open>
  What a run of the codebook import does to the two code tables, for the proofs below:
  \<open>adds st n st'\<close> says that \<open>st'\<close> has the rows of \<open>st\<close> unchanged and in place,
  followed by \<open>n\<close> new rows, none of which bears a name already in \<open>st\<close>.
\<close>

definition adds :: "importer \<Rightarrow> nat \<Rightarrow> importer \<Rightarrow> bool" where
  "adds st n st' =
     (\<exists>cs ks. code_cat (conn st') = code_cat (conn st) @ cs
        \<and> code_name (conn st') = code_name (conn st) @ ks
        \<and> n = length cs + length ks
        \<and> list_all (\<lambda>r. \<not> name_taken (cc_name r) (map cc_name (code_cat (conn st)))) cs
        \<and> list_all (\<lambda>r. \<not> name_taken (cn_name r) (map cn_name (code_name (conn st)))) ks)"

text \<open>
  An importer in the middle of a run, for examples: one category, one code, one user,
  one source and one variable are known, and the unpacked archive holds one text file.
\<close>

definition example_importer :: importer where
  "example_importer =
     \<lparr>conn = \<lparr>source = [],
              code_cat = [\<lparr>cc_catid = 4, cc_name = Some ''Themes'', cc_memo = Some [],
                   cc_owner = [], cc_date = ''2024-01-01 00:00:00'', cc_supercatid = None\<rparr>],
              code_name = [\<lparr>cn_cid = 7, cn_name = Some ''Trust'', cn_memo = Some [],
                   cn_owner = [], cn_date = ''2024-01-01 00:00:00'', cn_catid = Some 4,
                   cn_color = ''#999999''\<rparr>],
              code_text = [], code_image = [], annotation = [], attribute = [],
              attribute_type = [], cases = []\<rparr>,
      codes = [(Some ''c-trust'', 7)], users = [(Some ''u-1'', Some ''ann'')],
      sources = [(Some ''s-1'', 3)], variables = [(Some ''v-1'', Some ''Age'')],
      file_vars = [], case_list = [], annotations = [], codername = ''default'',
      project_path = ''/home/ann/study.qda'', folder_name = ''/home/ann/in._temporary'',
      sources_name = ''/Sources'',
      files = [''/home/ann/in._temporary/Sources/t-1.txt'' \<mapsto> ''Hello world. Goodbye.'']\<rparr>"

text \<open>
  A codable category with a description and two child codes, the first of which
  repeats the name of the category.
\<close>

definition example_category :: element where
  "example_category =
     Element (project_ns @ ''Code'')
       [(''guid'', ''c-10''), (''name'', ''Care''), (''isCodable'', ''true'')] None
       [Element (project_ns @ ''Description'') [] (Some ''about care'') [],
        Element (project_ns @ ''Code'') [(''guid'', ''c-11''), (''name'', ''Care'')] None [],
        Element (project_ns @ ''Code'') [(''guid'', ''c-12''), (''name'', ''Help'')] None []]"

section \<open>Transcript import: sync points and selections\<close>

definition ptag :: "string \<Rightarrow> string" where
  "ptag n = project_ns @ n"

text \<open>
  \<open>d.replace('T', ' ').replace('Z', '')\<close> on a date; on \<open>None\<close> the call raises
  AttributeError.
\<close>

definition replace_t_z :: "string \<Rightarrow> string" where
  "replace_t_z d = filter (\<lambda>c. c \<noteq> CHR ''Z'') (map (\<lambda>c. if c = CHR ''T'' then CHR '' '' else c) d)"

definition date_of :: "string option \<Rightarrow> error + string" where
  "date_of d = (case d of None \<Rightarrow> Inl AttributeError | Some x \<Rightarrow> Inr (replace_t_z x))"

text \<open>
  \<open>for u in self.users: if u['guid'] == guid: name = u['name']\<close>, from the start value
  \<open>name\<close>: the last user with the GUID decides.
\<close>

definition user_name :: "(string option \<times> string option) list \<Rightarrow> string option \<Rightarrow> string option
    \<Rightarrow> string option" where
  "user_name us guid start = foldl (\<lambda>n u. if fst u = guid then snd u else n) start us"

text \<open>
  An entry of the list \<open>syncpoints\<close>: the attributes \<open>guid\<close>, \<open>position\<close> and
  \<open>timeStamp\<close> of a SyncPoint element, each \<open>None\<close> when absent.
\<close>

record syncpoint =
  sp_guid :: "string option"
  sp_pos :: "string option"
  sp_timestamp :: "string option"

definition syncpoints_of :: "element \<Rightarrow> syncpoint list" where
  "syncpoints_of element =
     map (\<lambda>e. \<lparr>sp_guid = get e ''guid'', sp_pos = get e ''position'',
               sp_timestamp = get e ''timeStamp''\<rparr>)
         (filter (\<lambda>e. el_tag e = ptag ''SyncPoint'') (el_children element))"

text \<open>
  The loop \<open>for s in syncpoints\<close> of one TranscriptSelection: \<open>pos0\<close> and \<open>pos1\<close> start
  at 0 and are set, to \<open>int(s['pos']) + 1\<close>, at every entry whose GUID matches; the loop
  does not stop at a match. \<open>int\<close> raises when a matching entry has no position or one
  that is not an integer.
\<close>

fun resolve_syncpoints ::
    "syncpoint list \<Rightarrow> string option \<Rightarrow> string option \<Rightarrow> int \<Rightarrow> int \<Rightarrow> error + (int \<times> int)" where
  "resolve_syncpoints [] guid_pos0 guid_pos1 pos0 pos1 = Inr (pos0, pos1)"
| "resolve_syncpoints (s # ss) guid_pos0 guid_pos1 pos0 pos1 =
     ebind (if guid_pos0 = sp_guid s then ebind (py_int (sp_pos s)) (\<lambda>v. Inr (v + 1))
            else Inr pos0) (\<lambda>pos0'.
     ebind (if guid_pos1 = sp_guid s then ebind (py_int (sp_pos s)) (\<lambda>v. Inr (v + 1))
            else Inr pos1) (\<lambda>pos1'.
     resolve_syncpoints ss guid_pos0 guid_pos1 pos0' pos1'))"

text \<open>\<open>memo = str(ee.text)\<close> for the last Description child; \<open>str(None)\<close> is \<open>'None'\<close>.\<close>

definition selection_memo :: "element \<Rightarrow> string" where
  "selection_memo e =
     foldl (\<lambda>memo ee. if el_tag ee = ptag ''Description''
                       then (case el_text ee of None \<Rightarrow> ''None'' | Some t \<Rightarrow> t) else memo)
       [] (el_children e)"

text \<open>
  The local variables of \<open>parse_transcript_with_codings_and_syncpoints\<close> that the loop
  over the selections reads: the text of the transcript, the id \<open>fid\<close> of the source it
  was inserted as, the id \<open>av_id\<close> of the media source, the user and the date.
\<close>

record transcript_ctx =
  tc_text :: string
  tc_fid :: int
  tc_av_id :: int
  tc_creating_user :: "string option"
  tc_create_date :: string

text \<open>
  The loop over the Coding children of a selection: \<open>code_ref\<close> is the first child of
  the Coding (IndexError without one), and a row is appended for every entry of
  \<open>self.codes\<close> with the referenced GUID.
\<close>

fun coding_rows ::
    "(string option \<times> int) list \<Rightarrow> transcript_ctx \<Rightarrow> int \<Rightarrow> int \<Rightarrow> string \<Rightarrow> element list
     \<Rightarrow> error + code_text_row list" where
  "coding_rows cs ctx pos0 pos1 memo [] = Inr []"
| "coding_rows cs ctx pos0 pos1 memo (ee # es) =
     (if el_tag ee = ptag ''Coding'' then
        ebind (py_index (el_children ee) 0) (\<lambda>code_ref.
        ebind (coding_rows cs ctx pos0 pos1 memo es) (\<lambda>rest.
        Inr (map (\<lambda>c. \<lparr>ct_cid = Some (snd c), ct_fid = tc_fid ctx,
                        ct_seltext = py_slice (tc_text ctx) pos0 pos1, ct_pos0 = pos0,
                        ct_pos1 = pos1, ct_owner = tc_creating_user ctx,
                        ct_date = tc_create_date ctx, ct_memo = memo,
                        ct_avid = Some (tc_av_id ctx)\<rparr>)
                 (filter (\<lambda>c. fst c = get code_ref ''targetGUID'') cs) @ rest)))
      else coding_rows cs ctx pos0 pos1 memo es)"

text \<open>The rows one TranscriptSelection element appends to \<open>value_list\<close>.\<close>

definition selection_rows ::
    "(string option \<times> int) list \<Rightarrow> transcript_ctx \<Rightarrow> syncpoint list \<Rightarrow> element
     \<Rightarrow> error + code_text_row list" where
  "selection_rows cs ctx syncpoints e =
     ebind (resolve_syncpoints syncpoints (get e ''fromSyncPoint'') (get e ''toSyncPoint'') 0 0)
       (\<lambda>(pos0, pos1). coding_rows cs ctx pos0 pos1 (selection_memo e) (el_children e))"

fun value_list_of ::
    "(string option \<times> int) list \<Rightarrow> transcript_ctx \<Rightarrow> syncpoint list \<Rightarrow> element list
     \<Rightarrow> error + code_text_row list" where
  "value_list_of cs ctx syncpoints [] = Inr []"
| "value_list_of cs ctx syncpoints (e # es) =
     (if el_tag e = ptag ''TranscriptSelection'' then
        ebind (selection_rows cs ctx syncpoints e) (\<lambda>rows.
        ebind (value_list_of cs ctx syncpoints es) (\<lambda>rest. Inr (rows @ rest)))
      else value_list_of cs ctx syncpoints es)"

text \<open>
  \<open>insert into code_text\<close>: the uniqueness of (code, source, start, end, owner) is the
  constraint the spec gives for coded spans. Nothing catches the IntegrityError here.
\<close>

definition same_span :: "code_text_row \<Rightarrow> code_text_row \<Rightarrow> bool" where
  "same_span r r' =
     (ct_cid r \<noteq> None \<and> ct_owner r \<noteq> None \<and> ct_cid r = ct_cid r' \<and> ct_fid r = ct_fid r'
      \<and> ct_pos0 r = ct_pos0 r' \<and> ct_pos1 r = ct_pos1 r' \<and> ct_owner r = ct_owner r')"

definition insert_code_text :: "code_text_row \<Rightarrow> store \<Rightarrow> error + store" where
  "insert_code_text r db =
     (if list_ex (same_span r) (code_text db) then Inl IntegrityError
      else Inr (db\<lparr>code_text := code_text db @ [r]\<rparr>))"

fun insert_value_list :: "code_text_row list \<Rightarrow> store \<Rightarrow> error + store" where
  "insert_value_list [] db = Inr db"
| "insert_value_list (v # vs) db = ebind (insert_code_text v db) (insert_value_list vs)"

text \<open>
  The destination of the transcript file. \<open>av_name[-4]\<close> is one character, which is
  none of the three-letter strings it is looked up in, so the file goes to the folder
  \<open>documents\<close> whenever the test returns; on a name ending in \<open>.srt\<close> the test raises
  IndexError when \<open>av_name\<close> has fewer than four characters.
\<close>

definition transcript_destination :: "string \<Rightarrow> string \<Rightarrow> string \<Rightarrow> error + string" where
  "transcript_destination path t_name av_name =
     (if py_slice_from t_name (- 4) = ''.srt'' then
        ebind (py_index_neg av_name 4) (\<lambda>c.
          if [c] \<in> set [''mp4'', ''ogg'', ''mov''] then Inr (path @ ''/video/'' @ t_name)
          else if [c] \<in> set [''mp3'', ''m4a'', ''wav''] then Inr (path @ ''/audio/'' @ t_name)
          else Inr (path @ ''/documents/'' @ t_name))
      else Inr (path @ ''/documents/'' @ t_name))"

text \<open>
  \<open>source_path\<close>: the folder of the unpacked sources, a slash when it does not end in
  one, and the path of the file in the archive.
\<close>

definition transcript_source_path :: "string \<Rightarrow> string \<Rightarrow> string \<Rightarrow> error + string" where
  "transcript_source_path folder srcs plain_text_path =
     (let source_path = folder @ srcs in
      ebind (py_index_neg source_path 1) (\<lambda>c.
        Inr ((if c \<noteq> CHR ''/'' then source_path @ ''/'' else source_path) @ plain_text_path)))"

text \<open>
  \<open>shutil.copyfile(source_path, destination)\<close> inside \<open>try ... except shutil.Error\<close>.
  Copying a file onto itself raises SameFileError, a \<open>shutil.Error\<close>, which is caught:
  nothing is copied. A missing source file raises FileNotFoundError, which is no
  \<open>shutil.Error\<close> and leaves the function.
\<close>

definition copyfile :: "string \<Rightarrow> string \<Rightarrow> (string \<rightharpoonup> string) \<Rightarrow> error + (string \<rightharpoonup> string)" where
  "copyfile source_path destination fs =
     (if source_path = destination then Inr fs
      else case fs source_path of
             None \<Rightarrow> Inl FileNotFoundError
           | Some c \<Rightarrow> Inr (fs(destination \<mapsto> c)))"

text \<open>
  Reading the copy inside \<open>try ... except Exception\<close>: the text stays empty when the
  file cannot be opened. The test \<open>text[0:6] == "\ufeff"\<close> compares with a string of the
  one character U+FEFF, which is none of the 8-bit characters of the model, so it is
  false for every text of the model and is left out.
\<close>

definition read_text :: "string \<Rightarrow> (string \<rightharpoonup> string) \<Rightarrow> string" where
  "read_text destination fs = (case fs destination of None \<Rightarrow> [] | Some c \<Rightarrow> c)"

text \<open>
  The memo of the new source: the name, then the text of every Description child that
  has one.
\<close>

definition transcript_memo :: "string \<Rightarrow> element \<Rightarrow> string" where
  "transcript_memo t_name element =
     foldl (\<lambda>memo e. if el_tag e = ptag ''Description''
                       then (case el_text e of None \<Rightarrow> memo | Some t \<Rightarrow> memo @ t) else memo)
       (''Name: '' @ t_name @ [CHR 0x0A]) (el_children element)"

text \<open>
  \<open>insert into source (name, fulltext, mediapath, memo, owner, date, av_text_id)\<close>
  followed by \<open>select last_insert_rowid()\<close>.
\<close>

definition insert_source :: "source_row \<Rightarrow> store \<Rightarrow> int \<times> store" where
  "insert_source r db =
     (let i = next_rowid (map so_id (source db))
      in (i, db\<lparr>source := source db @ [r\<lparr>so_id := i\<rparr>]\<rparr>))"

text \<open>
  \<open>parse_transcript_with_codings_and_syncpoints(av_name, av_id, element)\<close>. The user and
  the date are read first (AttributeError without a date). A \<open>plainTextPath\<close> that does
  not start with \<open>internal://\<close> ends the function with nothing imported (TypeError
  without the attribute), and so does no \<open>name\<close> (TypeError, from the concatenation;
  the model's \<open>t_name\<close> is the variable \<open>name\<close>).
  Then the file is copied and read, the transcript is inserted as a source, the sync
  points are collected, the selections are turned into \<open>value_list\<close>, and the rows are
  inserted. The messages written to the log and the text window are not modelled, and
  when an exception leaves the function the model gives the exception, not the state of
  the store and the files it leaves behind.
\<close>

definition parse_transcript_with_codings_and_syncpoints ::
    "string \<Rightarrow> int \<Rightarrow> element \<Rightarrow> importer \<Rightarrow> error + importer" where
  "parse_transcript_with_codings_and_syncpoints av_name av_id element st =
     (let creating_user_guid = (case get element ''creatingUser'' of
                                  None \<Rightarrow> get element ''modifyingUser'' | Some g \<Rightarrow> Some g);
          creating_user = user_name (users st) creating_user_guid (Some ''default'');
          create_date = (case get element ''creationDateTime'' of
                           None \<Rightarrow> get element ''modifiedDateTime'' | Some d \<Rightarrow> Some d)
      in
      ebind (date_of create_date) (\<lambda>create_date.
      case get element ''plainTextPath'' of
        None \<Rightarrow> Inl TypeError
      | Some plain_text_path \<Rightarrow>
          if py_slice plain_text_path 0 11 \<noteq> ''internal://'' then Inr st
          else
            (case get element ''name'' of
               None \<Rightarrow> Inl TypeError
             | Some t_name \<Rightarrow>
                 ebind (transcript_destination (project_path st) t_name av_name) (\<lambda>destination.
                 ebind (transcript_source_path (folder_name st) (sources_name st)
                          (py_slice_from plain_text_path 11)) (\<lambda>source_path.
                 ebind (copyfile source_path destination (files st)) (\<lambda>fs.
                 let text = read_text destination fs;
                     memo = transcript_memo t_name element;
                     (fid, db) = insert_source
                       \<lparr>so_id = 0, so_name = Some (av_name @ ''.txt''), so_fulltext = Some text,
                        so_mediapath = None, so_memo = Some memo, so_owner = creating_user,
                        so_date = create_date, so_av_text_id = Some av_id\<rparr> (conn st);
                     ctx = \<lparr>tc_text = text, tc_fid = fid, tc_av_id = av_id,
                            tc_creating_user = creating_user, tc_create_date = create_date\<rparr>
                 in
                 ebind (value_list_of (codes st) ctx (syncpoints_of element)
                          (el_children element)) (\<lambda>value_list.
                 ebind (insert_value_list value_list db) (\<lambda>db'.
                 Inr (st\<lparr>conn := db', files := fs\<rparr>)))))))))"

text \<open>The rows of \<open>code_text\<close> after an import that returned.\<close>

definition code_text_after :: "error + importer \<Rightarrow> error + code_text_row list" where
  "code_text_after r = (case r of Inl e \<Rightarrow> Inl e | Inr st \<Rightarrow> Inr (code_text (conn st)))"

text \<open>
  A transcript for examples, of the text \<open>Hello world. Goodbye.\<close>: the GUID \<open>sp-b\<close> is the
  GUID of two sync points, and the selection runs from \<open>sp-a\<close> to \<open>sp-b\<close>.
\<close>

definition example_transcript :: element where
  "example_transcript =
     Element (ptag ''Transcript'')
       [(''guid'', ''t-1''), (''name'', ''talk.txt''), (''creatingUser'', ''u-1''),
        (''creationDateTime'', ''2024-02-02T10:00:00Z''),
        (''plainTextPath'', ''internal://t-1.txt'')] None
       [Element (ptag ''SyncPoint'') [(''guid'', ''sp-a''), (''position'', ''5''), (''timeStamp'', ''0'')] None [],
        Element (ptag ''SyncPoint'') [(''guid'', ''sp-b''), (''position'', ''9''), (''timeStamp'', ''100'')] None [],
        Element (ptag ''SyncPoint'') [(''guid'', ''sp-b''), (''position'', ''12''), (''timeStamp'', ''200'')] None [],
        Element (ptag ''TranscriptSelection'')
          [(''guid'', ''ts-1''), (''fromSyncPoint'', ''sp-a''), (''toSyncPoint'', ''sp-b'')] None
          [Element (ptag ''Coding'') [(''guid'', ''cd-1'')] None
             [Element (ptag ''CodeRef'') [(''targetGUID'', ''c-trust'')] None []]]]"

text \<open>
  A transcript of the same text whose two sync points have GUIDs of their own, at the
  positions 0 and 11 of the text: the selection is the span from 0 to 11, \<open>Hello world\<close>,
  as the export writes it.
\<close>

definition example_transcript_unique :: element where
  "example_transcript_unique =
     Element (ptag ''Transcript'')
       [(''guid'', ''t-1''), (''name'', ''talk.txt''), (''creatingUser'', ''u-1''),
        (''creationDateTime'', ''2024-02-02T10:00:00Z''),
        (''plainTextPath'', ''internal://t-1.txt'')] None
       [Element (ptag ''SyncPoint'') [(''guid'', ''sp-0''), (''position'', ''0''), (''timeStamp'', ''0'')] None [],
        Element (ptag ''SyncPoint'') [(''guid'', ''sp-1''), (''position'', ''11''), (''timeStamp'', ''900'')] None [],
        Element (ptag ''TranscriptSelection'')
          [(''guid'', ''ts-1''), (''fromSyncPoint'', ''sp-0''), (''toSyncPoint'', ''sp-1'')] None
          [Element (ptag ''Coding'') [(''guid'', ''cd-1'')] None
             [Element (ptag ''CodeRef'') [(''targetGUID'', ''c-trust'')] None []]]]"

section \<open>Import of picture codings, annotations and variable values\<close>

text \<open>
  \<open>for c in self.codes: if c['guid'] == guid: cid = c['cid']\<close> from \<open>cid = None\<close>, and
  the same loop over \<open>self.sources\<close>: the last entry with the GUID decides, and
  \<open>None\<close> stays when there is none.
\<close>

definition lookup_last :: "(string option \<times> int) list \<Rightarrow> string option \<Rightarrow> int option" where
  "lookup_last xs guid = foldl (\<lambda>r x. if fst x = guid then Some (snd x) else r) None xs"

text \<open>
  Modelled from the spec: the tables \<open>code_image\<close>, \<open>annotation\<close> and \<open>attribute\<close>, whose
  declarations are not in the source files, take every row (the spec names no
  constraint on them).
\<close>

definition insert_code_image :: "code_image_row \<Rightarrow> store \<Rightarrow> store" where
  "insert_code_image r db = db\<lparr>code_image := code_image db @ [r]\<rparr>"

definition insert_annotation_row :: "annotation_row \<Rightarrow> store \<Rightarrow> store" where
  "insert_annotation_row r db = db\<lparr>annotation := annotation db @ [r]\<rparr>"

definition insert_attribute :: "attribute_row \<Rightarrow> store \<Rightarrow> store" where
  "insert_attribute r db = db\<lparr>attribute := attribute db @ [r]\<rparr>"

text \<open>
  The loop over the children of a PictureSelection in \<open>_load_codings_for_picture\<close>:
  for every Coding child the code id is looked up from the GUID of its first child,
  and the row is inserted, whether the code id was found or not.
\<close>

fun picture_codings :: "(code_image_row) \<Rightarrow> (string option \<times> int) list \<Rightarrow> element list \<Rightarrow> store
    \<Rightarrow> error + store" where
  "picture_codings row cs [] db = Inr db"
| "picture_codings row cs (e # es) db =
     (if el_tag e = ptag ''Coding'' then
        ebind (py_index (el_children e) 0) (\<lambda>code_ref.
          let cid = lookup_last cs (get code_ref ''targetGUID'')
          in picture_codings row cs es (insert_code_image (row\<lparr>ci_cid := cid\<rparr>) db))
      else picture_codings row cs es db)"

definition load_codings_for_picture :: "int \<Rightarrow> element \<Rightarrow> importer \<Rightarrow> error + importer" where
  "load_codings_for_picture src_id element st =
     ebind (py_int (get element ''firstX'')) (\<lambda>first_x.
     ebind (py_int (get element ''firstY'')) (\<lambda>first_y.
     ebind (py_int (get element ''secondX'')) (\<lambda>second_x.
     ebind (py_int (get element ''secondY'')) (\<lambda>second_y.
     let width = second_x - first_x; height = second_y - first_y;
         memo = get element ''name'';
         create_date = (case get element ''creationDateTime'' of
                          None \<Rightarrow> get element ''modifiedDateTime'' | Some d \<Rightarrow> Some d)
     in
     ebind (date_of create_date) (\<lambda>create_date.
     let creating_user_guid = (case get element ''creatingUser'' of
                                 None \<Rightarrow> get element ''modifyingUser'' | Some g \<Rightarrow> Some g);
         creating_user = user_name (users st) creating_user_guid (Some ''default'');
         row = \<lparr>ci_id = src_id, ci_x1 = first_x, ci_y1 = first_y, ci_width = width,
                ci_height = height, ci_cid = None, ci_memo = memo, ci_date = create_date,
                ci_owner = creating_user\<rparr>
     in
     ebind (picture_codings row (codes st) (el_children element) (conn st))
       (\<lambda>db. Inr (st\<lparr>conn := db\<rparr>)))))))"

text \<open>
  \<open>insert_annotation\<close>: the Note element of a text annotation. \<open>now_date\<close> is the
  current time, used when the Note has no \<open>modifiedDateTime\<close>. The function returns
  without inserting when a position or the memo is missing, and when no source has the
  GUID \<open>source_guid\<close>.
\<close>

definition note_memo :: "element \<Rightarrow> string option" where
  "note_memo element =
     foldl (\<lambda>m el. if el_tag el = ptag ''PlainTextContent'' then el_text el else m)
       (Some []) (el_children element)"

definition note_pos :: "string \<Rightarrow> element \<Rightarrow> string option" where
  "note_pos k element =
     foldl (\<lambda>p el. if el_tag el = ptag ''PlainTextSelection'' then get el k else p)
       None (el_children element)"

definition insert_annotation :: "string \<Rightarrow> string option \<Rightarrow> element \<Rightarrow> importer \<Rightarrow> error + importer" where
  "insert_annotation now_date source_guid element st =
     (let owner1 = user_name (users st) (get element ''modifyingUser'') None;
          owner2 = (if owner1 = None
                    then user_name (users st) (get element ''creatingUser'') None else owner1);
          owner = (if owner2 = None then Some (codername st) else owner2);
          date = (case get element ''modifiedDateTime'' of
                    Some d \<Rightarrow> replace_t_z d | None \<Rightarrow> now_date);
          memo = note_memo element;
          pos0 = note_pos ''startPosition'' element;
          pos1 = note_pos ''endPosition'' element
      in
      if pos0 = None \<or> pos1 = None \<or> memo = None then Inr st
      else
        (case lookup_last (sources st) source_guid of
           None \<Rightarrow> Inr st
         | Some fid \<Rightarrow>
             ebind (py_int pos0) (\<lambda>p0. ebind (py_int pos1) (\<lambda>p1.
             Inr (st\<lparr>conn := insert_annotation_row
                    \<lparr>an_fid = fid, an_pos0 = p0, an_pos1 = p1,
                     an_memo = (case memo of Some m \<Rightarrow> m | None \<Rightarrow> []),
                     an_owner = owner, an_date = date\<rparr> (conn st)\<rparr>)))))"

text \<open>
  \<open>parse_variable_value\<close>: a VariableValue element inside a source. The name of the
  variable is looked up from the GUID of each VariableRef child (the first variable
  with the GUID), and stays the empty string when none is found; the row is inserted
  in either case.
\<close>

definition is_value_tag :: "string \<Rightarrow> bool" where
  "is_value_tag t =
     (t \<in> set [ptag ''IntegerValue'', ptag ''TextValue'', ptag ''DateValue'', ptag ''FloatValue'',
               ptag ''DateTimeValue'', ptag ''BooleanValue''])"

definition find_variable :: "(string option \<times> string option) list \<Rightarrow> string option
    \<Rightarrow> string option option" where
  "find_variable vs guid = map_option snd (find (\<lambda>v. fst v = guid) vs)"

definition variable_name_of :: "(string option \<times> string option) list \<Rightarrow> element \<Rightarrow> string option" where
  "variable_name_of vs element =
     foldl (\<lambda>var_name var_el.
              if el_tag var_el = ptag ''VariableRef''
              then (case find_variable vs (get var_el ''targetGUID'') of
                      None \<Rightarrow> var_name | Some n \<Rightarrow> n)
              else var_name)
       (Some []) (el_children element)"

definition variable_value_of :: "element \<Rightarrow> string" where
  "variable_value_of element =
     foldl (\<lambda>v var_el. case el_text var_el of
                          Some t \<Rightarrow> if is_value_tag (el_tag var_el) then strip t else v
                        | None \<Rightarrow> v)
       [] (el_children element)"

definition parse_variable_value :: "string \<Rightarrow> element \<Rightarrow> int \<Rightarrow> string option \<Rightarrow> importer \<Rightarrow> importer" where
  "parse_variable_value now_date element src_id creating_user st =
     st\<lparr>conn := insert_attribute
          \<lparr>at_name = variable_name_of (variables st) element, at_attr_type = ''file'',
           at_value = Some (variable_value_of element), at_id = Some src_id, at_date = now_date,
           at_owner = creating_user\<rparr> (conn st)\<rparr>"

text \<open>
  A picture selection whose Coding refers to a code GUID that no code has, a Note
  about a text selection, and a VariableValue that refers to a variable GUID that no
  variable has.
\<close>

definition example_picture_selection :: element where
  "example_picture_selection =
     Element (ptag ''PictureSelection'')
       [(''guid'', ''ps-1''), (''firstX'', ''783''), (''firstY'', ''1238''), (''secondX'', ''1172''),
        (''secondY'', ''1788''), (''name'', ''some wording.''), (''creatingUser'', ''u-1''),
        (''creationDateTime'', ''2019-03-09T23:19:07Z'')] None
       [Element (ptag ''Coding'') [(''guid'', ''cd-7'')] None
          [Element (ptag ''CodeRef'') [(''targetGUID'', ''c-unknown'')] None []]]"

definition example_note :: element where
  "example_note =
     Element (ptag ''Note'')
       [(''guid'', ''n-1''), (''modifyingUser'', ''u-1''),
        (''modifiedDateTime'', ''2021-01-15T23:37:54Z'')] None
       [Element (ptag ''PlainTextContent'') [] (Some ''Memo for title'') [],
        Element (ptag ''PlainTextSelection'')
          [(''guid'', ''pts-1''), (''startPosition'', ''455''), (''endPosition'', ''596'')] None []]"

definition example_variable_value :: element where
  "example_variable_value =
     Element (ptag ''VariableValue'') [] None
       [Element (ptag ''VariableRef'') [(''targetGUID'', ''v-unknown'')] None [],
        Element (ptag ''TextValue'') [] (Some '' 20-29 '') []]"

section \<open>Cases and file variables (import)\<close>

text \<open>
  The two loops over the children of a VariableValue element: the GUID of the last
  VariableRef child and the text of the last value child, \<open>None\<close> without one.
\<close>

definition var_guid_of :: "element \<Rightarrow> string option" where
  "var_guid_of el =
     foldl (\<lambda>g v. if el_tag v = ptag ''VariableRef'' then get v ''targetGUID'' else g)
       None (el_children el)"

definition value_of :: "element \<Rightarrow> string option" where
  "value_of el =
     foldl (\<lambda>x v. if is_value_tag (el_tag v) then el_text v else x) None (el_children el)"

text \<open>
  The dictionary \<open>attr_val\<close> of one VariableValue child: the key \<open>name\<close> is set only
  when a variable with the GUID is found (the first one).
\<close>

definition attr_val_of :: "(string option \<times> string option) list \<Rightarrow> string option \<Rightarrow> element
    \<Rightarrow> file_var" where
  "attr_val_of vs file_guid el =
     \<lparr>fv_file_guid = file_guid, fv_var_guid = var_guid_of el, fv_value = value_of el,
      fv_name = find_variable vs (var_guid_of el)\<rparr>"

definition parse_case_for_file_variables :: "element \<Rightarrow> importer \<Rightarrow> importer" where
  "parse_case_for_file_variables e_case st =
     (if get e_case ''name'' \<noteq> None then st
      else
        let ec = el_children e_case;
            refs = filter (\<lambda>el. el_tag el = ptag ''SourceRef'') ec;
            n_refs = length refs;
            file_guid = foldl (\<lambda>g el. get el ''targetGUID'') None refs
        in
        if file_guid = None \<or> n_refs \<noteq> 1 then st
        else st\<lparr>file_vars := file_vars st
                 @ map (attr_val_of (variables st) file_guid)
                     (filter (\<lambda>el. el_tag el = ptag ''VariableValue'') ec)\<rparr>)"

definition parse_cases_for_file_variables :: "element \<Rightarrow> importer \<Rightarrow> importer" where
  "parse_cases_for_file_variables root st =
     foldl (\<lambda>s el. if el_tag el = ptag ''Cases''
                    then foldl (\<lambda>s' c. parse_case_for_file_variables c s') s (el_children el)
                    else s)
       (st\<lparr>file_vars := []\<rparr>) (el_children root)"

text \<open>
  \<open>fill_file_attribute_values\<close>: for every source, in order, and every entry of
  \<open>file_vars\<close> with the GUID of the source, a row of type \<open>file\<close> is inserted for the
  id of the source. \<open>v['name']\<close> raises KeyError when the entry has no key \<open>name\<close>.
\<close>

fun fill_for_source :: "string \<Rightarrow> string \<Rightarrow> string option \<times> int \<Rightarrow> file_var list \<Rightarrow> store
    \<Rightarrow> error + store" where
  "fill_for_source now_date owner s [] db = Inr db"
| "fill_for_source now_date owner s (v # vs) db =
     (if fv_file_guid v = fst s then
        (case fv_name v of
           None \<Rightarrow> Inl KeyError
         | Some n \<Rightarrow>
             fill_for_source now_date owner s vs
               (insert_attribute
                  \<lparr>at_name = n, at_attr_type = ''file'', at_value = fv_value v,
                   at_id = Some (snd s), at_date = now_date, at_owner = Some owner\<rparr> db))
      else fill_for_source now_date owner s vs db)"

fun fill_sources :: "string \<Rightarrow> string \<Rightarrow> (string option \<times> int) list \<Rightarrow> file_var list \<Rightarrow> store
    \<Rightarrow> error + store" where
  "fill_sources now_date owner [] fvs db = Inr db"
| "fill_sources now_date owner (s # ss) fvs db =
     ebind (fill_for_source now_date owner s fvs db) (fill_sources now_date owner ss fvs)"

definition fill_file_attribute_values :: "string \<Rightarrow> importer \<Rightarrow> error + importer" where
  "fill_file_attribute_values now_date st =
     ebind (fill_sources now_date (codername st) (sources st) (file_vars st) (conn st))
       (\<lambda>db. Inr (st\<lparr>conn := db\<rparr>))"

text \<open>
  \<open>parse_cases\<close>, one Case element at a time. A Case without a name is passed over.
  For a named Case the row is inserted into \<open>cases\<close>; the declaration of that table is
  not in the source files, so whether the store refuses the row (the exception the
  \<open>try\<close> block catches) is the parameter \<open>refuses\<close>. Then the values of the Case are
  inserted as attributes of type \<open>case\<close>, with the name of the last variable that has
  the GUID, or the empty string, and the variables seen are set to \<open>case\<close>.
\<close>

definition case_memo :: "element \<Rightarrow> string option" where
  "case_memo e =
     foldl (\<lambda>m d. if el_tag d = ''{urn:QDA-XML:project:1:0}Description'' then el_text d else m)
       (Some []) (el_children e)"

definition case_var_guids :: "element \<Rightarrow> string option list" where
  "case_var_guids vv =
     map (\<lambda>v. get v ''targetGUID'')
       (filter (\<lambda>v. el_tag v = ptag ''VariableRef'') (el_children vv))"

definition attr_name_of :: "(string option \<times> string option) list \<Rightarrow> string option \<Rightarrow> string option" where
  "attr_name_of vs guid = foldl (\<lambda>n attr. if fst attr = guid then snd attr else n) (Some []) vs"

definition insert_case_values :: "string \<Rightarrow> string \<Rightarrow> (string option \<times> string option) list
    \<Rightarrow> int option \<Rightarrow> element list \<Rightarrow> store \<Rightarrow> store" where
  "insert_case_values now_date owner vs caseid d_elements db =
     foldl (\<lambda>db' vv.
              if el_tag vv = ptag ''VariableValue''
              then insert_attribute
                     \<lparr>at_name = attr_name_of vs (var_guid_of vv), at_attr_type = ''case'',
                      at_value = value_of vv, at_id = caseid, at_date = now_date,
                      at_owner = Some owner\<rparr> db'
              else db')
       db d_elements"

definition set_case_scope :: "string option \<Rightarrow> store \<Rightarrow> store" where
  "set_case_scope n db =
     db\<lparr>attribute_type :=
          map (\<lambda>r. if n \<noteq> None \<and> aty_name r = n then r\<lparr>aty_case_or_file := ''case''\<rparr> else r)
            (attribute_type db)\<rparr>"

definition update_case_vars :: "(string option \<times> string option) list \<Rightarrow> string option list
    \<Rightarrow> store \<Rightarrow> store" where
  "update_case_vars vs case_vars db =
     foldl (\<lambda>db' g. foldl (\<lambda>db'' attr. if fst attr = g then set_case_scope (snd attr) db''
                                          else db'') db' vs)
       db (remdups case_vars)"

definition parse_case :: "(store \<Rightarrow> case_row \<Rightarrow> bool) \<Rightarrow> string \<Rightarrow> element \<Rightarrow> nat \<times> importer
    \<Rightarrow> nat \<times> importer" where
  "parse_case refuses now_date e acc =
     (case acc of (n_cases, st) \<Rightarrow>
        if get e ''name'' = None then (n_cases, st)
        else
          let d_elements = el_children e;
              caseid = next_rowid (map ca_caseid (cases (conn st)));
              row = \<lparr>ca_caseid = caseid, ca_name = get e ''name'', ca_memo = case_memo e,
                     ca_owner = Some (codername st), ca_date = now_date\<rparr>;
              inserted = \<not> refuses (conn st) row;
              db1 = (if inserted then (conn st)\<lparr>cases := cases (conn st) @ [row]\<rparr> else conn st);
              item_caseid = (if inserted then Some caseid else None);
              db2 = insert_case_values now_date (codername st) (variables st) item_caseid
                      d_elements db1;
              case_vars = concat (map case_var_guids
                            (filter (\<lambda>vv. el_tag vv = ptag ''VariableValue'') d_elements));
              db3 = update_case_vars (variables st) case_vars db2
          in (if inserted then n_cases + 1 else n_cases,
              st\<lparr>conn := db3,
                 case_list := (if inserted
                               then case_list st @ [\<lparr>ci_name = get e ''name'', ci_guid = get e ''guid'',
                                                      ci_caseid = caseid\<rparr>]
                               else case_list st)\<rparr>))"

definition parse_cases :: "(store \<Rightarrow> case_row \<Rightarrow> bool) \<Rightarrow> string \<Rightarrow> element \<Rightarrow> importer
    \<Rightarrow> nat \<times> importer" where
  "parse_cases refuses now_date element st =
     foldl (\<lambda>acc e. parse_case refuses now_date e acc) (0, st) (el_children element)"

text \<open>
  A Case without a name, with one SourceRef to the source \<open>s-1\<close> and two VariableValue
  children; the second refers to a variable GUID that no Variable element declared.
  \<open>example_project\<close> is a project file with this Case.
\<close>

definition example_file_case :: element where
  "example_file_case =
     Element (ptag ''Case'') [(''guid'', ''case-1'')] None
       [Element (ptag ''VariableValue'') [] None
          [Element (ptag ''VariableRef'') [(''targetGUID'', ''v-1'')] None [],
           Element (ptag ''TextValue'') [] (Some ''20-29'') []],
        Element (ptag ''VariableValue'') [] None
          [Element (ptag ''VariableRef'') [(''targetGUID'', ''v-unknown'')] None [],
           Element (ptag ''TextValue'') [] (Some ''1'') []],
        Element (ptag ''SourceRef'') [(''targetGUID'', ''s-1'')] None []]"

definition example_project :: element where
  "example_project =
     Element (ptag ''Project'') [(''name'', ''p'')] None
       [Element (ptag ''Cases'') [] None [example_file_case]]"

text \<open>The row \<open>fill_file_attribute_values\<close> inserts for an entry with a name.\<close>

definition file_row :: "string \<Rightarrow> string \<Rightarrow> int \<Rightarrow> file_var \<Rightarrow> attribute_row" where
  "file_row now_date owner i v =
     \<lparr>at_name = (case fv_name v of Some n \<Rightarrow> n | None \<Rightarrow> None), at_attr_type = ''file'',
      at_value = fv_value v, at_id = Some i, at_date = now_date, at_owner = Some owner\<rparr>"

section \<open>Codebook export\<close>

text \<open>
  A category and a code as the exporter holds them: the dictionaries built by
  \<open>get_categories\<close> and \<open>get_codes\<close>, with the entries the codebook export reads.
  \<open>cg_examine\<close> is the flag \<open>examine\<close>, which \<open>get_categories\<close> sets to \<open>True\<close>;
  \<open>co_xml\<close> is the XML of the code, made by \<open>get_codes\<close>.
\<close>

record category =
  cg_name :: "string option"
  cg_catid :: int
  cg_memo :: "string option"
  cg_supercatid :: "int option"
  cg_guid :: string
  cg_examine :: bool

record code_entry =
  co_name :: "string option"
  co_cid :: int
  co_catid :: "int option"
  co_guid :: string
  co_xml :: string

text \<open>
  The XML is built by appending strings. The model keeps the appended pieces apart, so
  that the elements emitted can be counted: the opening tag of a category (with its id),
  the XML of a code, and any other text. \<open>render\<close> gives the string.
\<close>

datatype piece = Cat_open int string "string option" | Code_xml code_entry | Raw string

text \<open>
  \<open>convert_xml_predefined_entities\<close>: \<open>None\<close> becomes the empty string, and the five
  characters are replaced one after the other; no replacement contains a character
  that a later one replaces, so each character of the text is replaced on its own.
\<close>

definition convert_xml_predefined_entities :: "string option \<Rightarrow> string" where
  "convert_xml_predefined_entities t =
     (case t of None \<Rightarrow> []
      | Some s \<Rightarrow> concat (map (\<lambda>c. if c = CHR ''&'' then ''&#038;''
                                    else if c = CHR 0x22 then ''&#034;''
                                    else if c = CHR 0x27 then ''&#039;''
                                    else if c = CHR ''<'' then ''&#060;''
                                    else if c = CHR ''>'' then ''&#062;'' else [c]) s))"

definition render_piece :: "piece \<Rightarrow> string" where
  "render_piece p =
     (case p of
        Cat_open k guid nm \<Rightarrow>
          ''<Code guid='' @ [CHR 0x22] @ guid @ [CHR 0x22] @ '' name='' @ [CHR 0x22]
            @ convert_xml_predefined_entities nm @ [CHR 0x22] @ '' isCodable='' @ [CHR 0x22]
            @ ''false'' @ [CHR 0x22] @ ''>'' @ [CHR 0x0A]
      | Code_xml co \<Rightarrow> co_xml co
      | Raw s \<Rightarrow> s)"

definition render :: "piece list \<Rightarrow> string" where
  "render ps = concat (map render_piece ps)"

definition open_piece :: "category \<Rightarrow> piece" where
  "open_piece c = Cat_open (cg_catid c) (cg_guid c) (cg_name c)"

definition description_pieces :: "category \<Rightarrow> piece list" where
  "description_pieces c =
     (let memo = convert_xml_predefined_entities (cg_memo c)
      in if memo \<noteq> [] then [Raw (''<Description>'' @ memo @ ''</Description>'' @ [CHR 0x0A])]
         else [])"

text \<open>\<open>for co in self.codes: if co['catid'] == c['catid']: xml += co['xml']\<close>\<close>

definition codes_in :: "code_entry list \<Rightarrow> int \<Rightarrow> piece list" where
  "codes_in cs k = map Code_xml (filter (\<lambda>co. co_catid co = Some k) cs)"

definition close_piece :: piece where
  "close_piece = Raw (''</Code>'' @ [CHR 0x0A])"

text \<open>
  The loop \<open>for c in cats\<close> of \<open>add_sub_categories\<close>, over the positions of the list.
  The recursive call changes the flags of the list the loop runs over, so the category
  at a position is read when the loop reaches it. \<open>sub\<close> is the recursive call; the
  result is the XML appended by the loop and the list with its new flags.
\<close>

fun for_cats :: "(int \<Rightarrow> category list \<Rightarrow> error + (piece list \<times> category list))
    \<Rightarrow> code_entry list \<Rightarrow> int \<Rightarrow> nat list \<Rightarrow> category list
    \<Rightarrow> error + (piece list \<times> category list)" where
  "for_cats sub cs cid [] cats = Inr ([], cats)"
| "for_cats sub cs cid (i # is) cats =
     (if i < length cats then
        (let c = cats ! i in
         if cg_examine c \<and> Some cid = cg_supercatid c then
           (case sub (cg_catid c) (cats[i := c\<lparr>cg_examine := False\<rparr>]) of
              Inl e \<Rightarrow> Inl e
            | Inr (inner_xml, cats1) \<Rightarrow>
                (case for_cats sub cs cid is cats1 of
                   Inl e \<Rightarrow> Inl e
                 | Inr (xml, cats2) \<Rightarrow>
                     Inr (open_piece c # description_pieces c @ inner_xml
                            @ codes_in cs (cg_catid c) @ close_piece # xml, cats2)))
         else for_cats sub cs cid is cats)
      else Inr ([], cats))"

text \<open>
  The loop \<open>while unfinished and counter < 5000\<close>: a pass over the list, then
  \<open>unfinished\<close> is whether a category is left to examine.
\<close>

function while_unfinished :: "(int \<Rightarrow> category list \<Rightarrow> error + (piece list \<times> category list))
    \<Rightarrow> code_entry list \<Rightarrow> int \<Rightarrow> nat \<Rightarrow> category list
    \<Rightarrow> error + (piece list \<times> category list)" where
  "while_unfinished sub cs cid counter cats =
     (if counter < 5000 then
        (case for_cats sub cs cid [0..<length cats] cats of
           Inl e \<Rightarrow> Inl e
         | Inr (xml, cats1) \<Rightarrow>
             if list_ex cg_examine cats1 then
               (case while_unfinished sub cs cid (counter + 1) cats1 of
                  Inl e \<Rightarrow> Inl e
                | Inr (xml', cats2) \<Rightarrow> Inr (xml @ xml', cats2))
             else Inr (xml, cats1))
      else Inr ([], cats))"
  by pat_completeness auto
termination
  by (relation "measure (\<lambda>(sub, cs, cid, counter, cats). 5000 - counter)") auto

declare while_unfinished.simps [simp del]

text \<open>
  \<open>add_sub_categories\<close> calls itself inside the loop, once for every level of nesting
  of the categories, and nothing in the source raises the recursion limit of the
  interpreter. \<open>frames\<close> is the number of nested calls the interpreter still allows
  where the function is called (the recursion limit less the depth of the call stack):
  a call made when none is left raises RecursionError, which the export does not catch.
  The loop calls \<open>convert_xml_predefined_entities\<close> only where it goes on to call
  \<open>add_sub_categories\<close>, so that call raises nowhere else.
\<close>

primrec add_sub_categories :: "nat \<Rightarrow> code_entry list \<Rightarrow> int \<Rightarrow> category list
    \<Rightarrow> error + (piece list \<times> category list)" where
  "add_sub_categories 0 cs cid cats = Inl RecursionError"
| "add_sub_categories (Suc frames) cs cid cats =
     while_unfinished (add_sub_categories frames cs) cs cid 0 cats"

text \<open>The loop \<open>for ca in cats\<close> of \<open>codebook_xml\<close> over the top-level categories.\<close>

fun top_cats :: "nat \<Rightarrow> code_entry list \<Rightarrow> nat list \<Rightarrow> category list
    \<Rightarrow> error + (piece list \<times> category list)" where
  "top_cats frames cs [] cats = Inr ([], cats)"
| "top_cats frames cs (i # is) cats =
     (if i < length cats then
        (let ca = cats ! i in
         if cg_supercatid ca = None \<and> cg_examine ca then
           (case add_sub_categories frames cs (cg_catid ca) (cats[i := ca\<lparr>cg_examine := False\<rparr>]) of
              Inl e \<Rightarrow> Inl e
            | Inr (inner_xml, cats1) \<Rightarrow>
                (case top_cats frames cs is cats1 of
                   Inl e \<Rightarrow> Inl e
                 | Inr (xml, cats2) \<Rightarrow>
                     Inr (open_piece ca # description_pieces ca @ codes_in cs (cg_catid ca)
                            @ inner_xml @ close_piece # xml, cats2)))
         else top_cats frames cs is cats)
      else Inr ([], cats))"

text \<open>
  \<open>codebook_xml\<close>, run where the interpreter still allows \<open>frames\<close> nested calls.
  Without codes the result is the empty string, and nothing is called. Otherwise the
  first call is \<open>copy(self.categories)\<close>, which raises RecursionError when no call is
  allowed. The copy is a list of the same dictionaries, so the flags set here are the
  flags of \<open>self.categories\<close>.
\<close>

definition codebook_xml :: "nat \<Rightarrow> code_entry list \<Rightarrow> category list \<Rightarrow> error + piece list" where
  "codebook_xml frames cs cats =
     (if cs = [] then Inr []
      else if frames = 0 then Inl RecursionError
      else
        (case top_cats frames cs [0..<length cats] cats of
           Inl e \<Rightarrow> Inl e
         | Inr (xml, cats') \<Rightarrow>
             Inr (Raw (''<CodeBook>'' @ [CHR 0x0A]) # Raw (''<Codes>'' @ [CHR 0x0A])
                  # map Code_xml (filter (\<lambda>co. co_catid co = None) cs)
                  @ xml @ [Raw (''</Codes>'' @ [CHR 0x0A]), Raw (''</CodeBook>'' @ [CHR 0x0A])])))"

text \<open>Categories and codes for examples.\<close>

definition ex_cat :: "int \<Rightarrow> int option \<Rightarrow> category" where
  "ex_cat k p = \<lparr>cg_name = Some ''cat'', cg_catid = k, cg_memo = Some [], cg_supercatid = p,
      cg_guid = ''g'', cg_examine = True\<rparr>"

definition ex_code :: "int \<Rightarrow> int option \<Rightarrow> code_entry" where
  "ex_code k p = \<lparr>co_name = Some ''code'', co_cid = k, co_catid = p, co_guid = ''g'',
      co_xml = ''<Code />''\<rparr>"

text \<open>
  For the proofs: the ids of the categories whose opening tag is in a list of pieces,
  the codes whose XML is in it, and the number of categories left to examine.
\<close>

fun opened :: "piece list \<Rightarrow> int list" where
  "opened [] = []"
| "opened (Cat_open k g n # ps) = k # opened ps"
| "opened (p # ps) = opened ps"

fun code_pieces :: "piece list \<Rightarrow> code_entry list" where
  "code_pieces [] = []"
| "code_pieces (Code_xml co # ps) = co # code_pieces ps"
| "code_pieces (p # ps) = code_pieces ps"

definition unex :: "category list \<Rightarrow> nat" where
  "unex cats = length (filter cg_examine cats)"

text \<open>
  \<open>frame cats cats'\<close>: the list \<open>cats'\<close> is \<open>cats\<close> with the flag of some categories
  set to \<open>False\<close>. \<open>eff cs cats xml cats'\<close> is what a traversal that appends \<open>xml\<close> and
  leaves the flags \<open>cats'\<close> keeps: every opening tag in \<open>xml\<close> stands for one flag that
  went from \<open>True\<close> to \<open>False\<close>, and the codes in \<open>xml\<close> are the codes of the categories
  opened in \<open>xml\<close>.
\<close>

definition frame :: "category list \<Rightarrow> category list \<Rightarrow> bool" where
  "frame cats cats' =
     (length cats' = length cats \<and>
      (\<forall>i<length cats. cats' ! i = cats ! i
          \<or> (cg_examine (cats ! i) \<and> cats' ! i = (cats ! i)\<lparr>cg_examine := False\<rparr>)))"

definition to_examine :: "category list \<Rightarrow> int multiset" where
  "to_examine cats = mset (map cg_catid (filter cg_examine cats))"

definition eff :: "code_entry list \<Rightarrow> category list \<Rightarrow> piece list \<Rightarrow> category list \<Rightarrow> bool" where
  "eff cs cats xml cats' =
     (frame cats cats'
      \<and> mset (opened xml) + to_examine cats' = to_examine cats
      \<and> mset (code_pieces xml)
          = mset (concat (map (\<lambda>k. filter (\<lambda>co. co_catid co = Some k) cs) (opened xml))))"

definition sub_ok :: "nat \<Rightarrow> code_entry list
    \<Rightarrow> (int \<Rightarrow> category list \<Rightarrow> error + (piece list \<times> category list)) \<Rightarrow> bool" where
  "sub_ok B cs sub =
     (\<forall>cid cats. unex cats < B \<longrightarrow>
        (\<exists>xml cats'. sub cid cats = Inr (xml, cats') \<and> eff cs cats xml cats'))"

text \<open>
  The parent links of a list of categories, and the two relations they give: a
  category is \<open>rooted\<close> when its chain of parents ends at a top-level category, and it
  is \<open>under\<close> the id \<open>r\<close> when the chain passes through \<open>r\<close>.
\<close>

definition links :: "category list \<Rightarrow> (int \<times> int option) set" where
  "links cats = set (map (\<lambda>c. (cg_catid c, cg_supercatid c)) cats)"

inductive rooted :: "(int \<times> int option) set \<Rightarrow> int \<Rightarrow> bool" for L where
  top: "(k, None) \<in> L \<Longrightarrow> rooted L k"
| sub: "rooted L p \<Longrightarrow> (k, Some p) \<in> L \<Longrightarrow> rooted L k"

inductive under :: "(int \<times> int option) set \<Rightarrow> int \<Rightarrow> int \<Rightarrow> bool" for L r where
  child: "(k, Some r) \<in> L \<Longrightarrow> under L r k"
| deeper: "under L r p \<Longrightarrow> (k, Some p) \<in> L \<Longrightarrow> under L r k"

text \<open>
  \<open>flipped cats cats' i\<close>: the flag at position \<open>i\<close> went from \<open>True\<close> to \<open>False\<close>.
  \<open>kids_done cats i\<close>: no category whose parent is the category at \<open>i\<close> is left to
  examine. \<open>child_done cid cats\<close>: none whose parent is \<open>cid\<close> is.
\<close>

definition flipped :: "category list \<Rightarrow> category list \<Rightarrow> nat \<Rightarrow> bool" where
  "flipped cats cats' i = (i < length cats \<and> cg_examine (cats ! i) \<and> \<not> cg_examine (cats' ! i))"

definition child_done :: "int \<Rightarrow> category list \<Rightarrow> bool" where
  "child_done cid cats =
     (\<forall>j<length cats. cg_supercatid (cats ! j) = Some cid \<longrightarrow> \<not> cg_examine (cats ! j))"

definition kids_done :: "category list \<Rightarrow> nat \<Rightarrow> bool" where
  "kids_done cats i = child_done (cg_catid (cats ! i)) cats"

text \<open>
  \<open>walk_post R cats cats'\<close> is what a traversal from \<open>cats\<close> to \<open>cats'\<close> keeps: only flags
  change, and every category it opened satisfies \<open>R\<close> and has all its children opened.
\<close>

definition walk_post :: "(int \<Rightarrow> bool) \<Rightarrow> category list \<Rightarrow> category list \<Rightarrow> bool" where
  "walk_post R cats cats' =
     (frame cats cats'
      \<and> (\<forall>i. flipped cats cats' i \<longrightarrow> kids_done cats' i \<and> R (cg_catid (cats ! i))))"

definition sub_post :: "(int \<Rightarrow> category list \<Rightarrow> error + (piece list \<times> category list)) \<Rightarrow> bool" where
  "sub_post sub =
     (\<forall>cid cats xml cats'. sub cid cats = Inr (xml, cats') \<longrightarrow>
        walk_post (under (links cats) cid) cats cats' \<and> child_done cid cats')"

text \<open>
  A project whose categories all hang below a top-level one (10 above 11 above 12, stored
  out of order), and one with a category whose parent is not in the table (12 below 99) and
  two categories that are each other's parent (13 and 14).
\<close>

definition example_codebook_cats :: "category list" where
  "example_codebook_cats = [ex_cat 12 (Some 11), ex_cat 10 None, ex_cat 11 (Some 10)]"

definition example_codebook_codes :: "code_entry list" where
  "example_codebook_codes = [ex_code 1 None, ex_code 2 (Some 11), ex_code 3 (Some 12)]"

definition example_orphan_cats :: "category list" where
  "example_orphan_cats = [ex_cat 12 (Some 99), ex_cat 13 (Some 14), ex_cat 14 (Some 13)]"

definition example_orphan_codes :: "code_entry list" where
  "example_orphan_codes = [ex_code 1 None, ex_code 2 (Some 12)]"

text \<open>
  Categories nested \<open>n\<close> levels deep, each the only child of the one before, and the
  list when the categories up to position \<open>k\<close> have been examined.
\<close>

definition nested_chain :: "nat \<Rightarrow> category list" where
  "nested_chain n =
     map (\<lambda>i. ex_cat (int i) (if i = 0 then None else Some (int i - 1))) [0..<n]"

definition chain_visited :: "nat \<Rightarrow> nat \<Rightarrow> category list" where
  "chain_visited n k =
     map (\<lambda>i. (ex_cat (int i) (if i = 0 then None else Some (int i - 1)))
                  \<lparr>cg_examine := k < i\<rparr>) [0..<n]"

section \<open>Properties of the time-point extractor\<close>

text \<open>
  C10. The empty-input test \<open>len(text) == 0 or text is None\<close> takes the length first:
  a media record whose fulltext is the empty string gives the empty list, and one whose
  fulltext is \<open>None\<close> raises TypeError instead of giving the empty list.
\<close>

theorem timepoints_empty_vs_none:
  "get_transcript_timepoints probe \<lparr>name = nm, fulltext = Some []\<rparr> = Inr []
   \<and> get_transcript_timepoints probe \<lparr>name = nm, fulltext = None\<rparr> = Inl TypeError"
  by (simp add: get_transcript_timepoints_def py_len_def ebind_def)

text \<open>
  C5. For the transcript text \<open>[01:02] hello [02:03] world\<close> the extractor returns
  the boundary anchor at position 0, an anchor at the offset of each opening bracket
  (0 and 14) with 62000 and 123000 milliseconds, and the boundary anchor at the last
  character position (26) with the media length, in the order of their positions.
\<close>

theorem timepoints_two_markers:
  "get_transcript_timepoints probe
      \<lparr>name = nm, fulltext = Some ''[01:02] hello [02:03] world''\<rparr>
     = Inr [(0, 0), (0, 62000), (14, 123000), (26, media_length_of probe)]
   \<and> ''[01:02] hello [02:03] world'' ! 0 = CHR ''[''
   \<and> ''[01:02] hello [02:03] world'' ! 14 = CHR ''[''
   \<and> int (length ''[01:02] hello [02:03] world'') - 1 = 26
   \<and> sorted (map fst [(0, 0), (0, 62000), (14, 123000), (26 :: int, media_length_of probe)])"
  by (simp add: get_transcript_timepoints_def py_len_def ebind_def finditer_def mmss1_def
      hhmmss1_def mmss2_def hhmmss2_def hhmmss_sss_def srt_def srt_stamp_def D2_def
      is_digit_def is_space_def msecs_ms_def msecs_hms_def inner_def py_slice_def
      slice_bound_def py_index_def py_int_str_def strip_def int_unsigned_def digits_val_def
      digit_val_def)

section \<open>Properties of the GUID generator\<close>


lemma format_guid_32:
  assumes "length v = 32"
  shows "format_guid v = take 8 v @ ''-'' @ take 4 (drop 8 v) @ ''-'' @ take 4 (drop 12 v) @ ''-''
     @ take 4 (drop 16 v) @ ''-'' @ drop 20 v"
  using assms by (simp add: format_guid_def py_slice_def slice_bound_def)

lemma list_all_take_drop: "list_all P v \<Longrightarrow> list_all P (take n (drop m v))"
  by (auto simp: list_all_iff dest: in_set_takeD in_set_dropD)

lemma list_all_drop: "list_all P v \<Longrightarrow> list_all P (drop m v)"
  by (auto simp: list_all_iff dest: in_set_dropD)

lemma hex_groups_cons:
  "length a = n \<Longrightarrow> list_all is_hex a \<Longrightarrow> hex_groups (m # ns) r
   \<Longrightarrow> hex_groups (n # m # ns) (a @ CHR ''-'' # r)"
  by simp

lemma format_guid_canonical:
  assumes "hex32 v"
  shows "canonical_guid (format_guid v)"
proof -
  from assms have len: "length v = 32" and hex: "list_all is_hex v"
    by (simp_all add: hex32_def)
  have g5: "hex_groups [12] (drop 20 v)"
    using len hex by (simp add: list_all_drop)
  have g4: "hex_groups [4, 12] (take 4 (drop 16 v) @ CHR ''-'' # drop 20 v)"
    by (rule hex_groups_cons) (use len hex g5 in \<open>simp_all add: list_all_take_drop\<close>)
  have g3: "hex_groups [4, 4, 12] (take 4 (drop 12 v) @ CHR ''-'' # take 4 (drop 16 v) @ CHR ''-'' # drop 20 v)"
    by (rule hex_groups_cons) (use len hex g4 in \<open>simp_all add: list_all_take_drop\<close>)
  have g2: "hex_groups [4, 4, 4, 12] (take 4 (drop 8 v) @ CHR ''-'' # take 4 (drop 12 v) @ CHR ''-'' # take 4 (drop 16 v) @ CHR ''-'' # drop 20 v)"
    by (rule hex_groups_cons) (use len hex g3 in \<open>simp_all add: list_all_take_drop\<close>)
  have g1: "hex_groups [8, 4, 4, 4, 12] (take 8 v @ CHR ''-'' # take 4 (drop 8 v) @ CHR ''-'' # take 4 (drop 12 v) @ CHR ''-'' # take 4 (drop 16 v) @ CHR ''-'' # drop 20 v)"
    by (rule hex_groups_cons) (use len hex g2 list_all_take_drop [of is_hex v 8 0] in \<open>simp_all\<close>)
  show ?thesis
    using g1 by (simp add: canonical_guid_def format_guid_32 [OF len])
qed

lemma pieces_32:
  "v = take 8 v @ take 4 (drop 8 v) @ take 4 (drop 12 v) @ take 4 (drop 16 v) @ drop 20 v"
proof -
  have a: "take 4 (drop 16 v) @ drop 20 v = drop 16 v"
    using append_take_drop_id [of 4 "drop 16 v"] by simp
  have b: "take 4 (drop 12 v) @ drop 16 v = drop 12 v"
    using append_take_drop_id [of 4 "drop 12 v"] by simp
  have c: "take 4 (drop 8 v) @ drop 12 v = drop 8 v"
    using append_take_drop_id [of 4 "drop 8 v"] by simp
  show ?thesis
    by (simp only: a b c append_take_drop_id)
qed

lemma format_guid_inj:
  assumes "length v = 32" "length w = 32" "format_guid v = format_guid w"
  shows "v = w"
proof -
  from assms have e: "take 8 v @ ''-'' @ take 4 (drop 8 v) @ ''-'' @ take 4 (drop 12 v) @ ''-''
     @ take 4 (drop 16 v) @ ''-'' @ drop 20 v = take 8 w @ ''-'' @ take 4 (drop 8 w) @ ''-'' @ take 4 (drop 12 w) @ ''-''
     @ take 4 (drop 16 w) @ ''-'' @ drop 20 w"
    by (simp add: format_guid_32)
  have 1: "take 8 v = take 8 w" and r1: "take 4 (drop 8 v) @ ''-'' @ take 4 (drop 12 v) @ ''-''
     @ take 4 (drop 16 v) @ ''-'' @ drop 20 v = take 4 (drop 8 w) @ ''-'' @ take 4 (drop 12 w) @ ''-''
     @ take 4 (drop 16 w) @ ''-'' @ drop 20 w"
    using e assms(1,2) by (simp_all add: append_eq_append_conv)
  have 2: "take 4 (drop 8 v) = take 4 (drop 8 w)" and r2: "take 4 (drop 12 v) @ ''-''
     @ take 4 (drop 16 v) @ ''-'' @ drop 20 v = take 4 (drop 12 w) @ ''-''
     @ take 4 (drop 16 w) @ ''-'' @ drop 20 w"
    using r1 assms(1,2) by (simp_all add: append_eq_append_conv)
  have 3: "take 4 (drop 12 v) = take 4 (drop 12 w)" and r3: "take 4 (drop 16 v) @ ''-'' @ drop 20 v = 
     take 4 (drop 16 w) @ ''-'' @ drop 20 w"
    using r2 assms(1,2) by (simp_all add: append_eq_append_conv)
  have 4: "take 4 (drop 16 v) = take 4 (drop 16 w)" and 5: "drop 20 v = drop 20 w"
    using r3 assms(1,2) by (simp_all add: append_eq_append_conv)
  show ?thesis
    using pieces_32 [of v] pieces_32 [of w] 1 2 3 4 5 by (simp only:)
qed


lemma while_returns:
  "j \<le> i \<Longrightarrow> (\<forall>t. j \<le> t \<and> t < i \<longrightarrow> format_guid (u t) \<in> set gs)
   \<Longrightarrow> format_guid (u i) \<notin> set gs
   \<Longrightarrow> while_duplicated u gs (Suc j) (format_guid (u j)) = Some (format_guid (u i), Suc i)"
proof (induction "i - j" arbitrary: j)
  case 0
  then have "j = i" by simp
  with 0 show ?case by (simp add: while_duplicated.simps)
next
  case (Suc d)
  then have lt: "j < i" by simp
  with Suc.prems have dup: "format_guid (u j) \<in> set gs" by simp
  have "while_duplicated u gs (Suc (Suc j)) (format_guid (u (Suc j)))
          = Some (format_guid (u i), Suc i)"
    using Suc.hyps(1) [of "Suc j"] Suc.hyps(2) Suc.prems lt by simp
  with dup show ?case
    by (subst while_duplicated.simps) simp
qed

lemma while_sound:
  assumes "while_duplicated u gs k guid = Some r"
  shows "fst r \<notin> set gs \<and>
       (r = (guid, k) \<or> (\<exists>i\<ge>k. r = (format_guid (u i), Suc i)))"
proof (rule while_duplicated.raw_induct
    [where P = "\<lambda>u gs k guid r. fst r \<notin> set gs \<and>
       (r = (guid, k) \<or> (\<exists>i\<ge>k. r = (format_guid (u i), Suc i)))", OF _ assms])
  fix w :: "(nat \<Rightarrow> string) \<Rightarrow> string list \<Rightarrow> nat \<Rightarrow> string \<Rightarrow> (string \<times> nat) option"
  fix u gs k guid r
  assume IH: "\<And>u gs k guid r. w u gs k guid = Some r \<Longrightarrow> fst r \<notin> set gs \<and>
       (r = (guid, k) \<or> (\<exists>i\<ge>k. r = (format_guid (u i), Suc i)))"
  assume eq: "(if guid \<in> set gs then w u gs (Suc k) (format_guid (u k)) else Some (guid, k)) = Some r"
  show "fst r \<notin> set gs \<and> (r = (guid, k) \<or> (\<exists>i\<ge>k. r = (format_guid (u i), Suc i)))"
  proof (cases "guid \<in> set gs")
    case True
    with eq have "w u gs (Suc k) (format_guid (u k)) = Some r" by simp
    from IH [OF this] have n: "fst r \<notin> set gs"
      and d: "r = (format_guid (u k), Suc k) \<or> (\<exists>i\<ge>Suc k. r = (format_guid (u i), Suc i))"
      by blast+
    from d have "\<exists>i\<ge>k. r = (format_guid (u i), Suc i)"
    proof
      assume "r = (format_guid (u k), Suc k)"
      then show ?thesis by blast
    next
      assume "\<exists>i\<ge>Suc k. r = (format_guid (u i), Suc i)"
      then obtain i where "Suc k \<le> i" "r = (format_guid (u i), Suc i)" by blast
      then have "k \<le> i \<and> r = (format_guid (u i), Suc i)" by simp
      then show ?thesis by blast
    qed
    with n show ?thesis by blast
  next
    case False
    with eq show ?thesis by auto
  qed
qed

lemma create_guid_sound:
  assumes "create_guid u st = Some (g, st')"
  shows "g \<notin> set (guids st) \<and> guids st' = guids st @ [g]
         \<and> (\<exists>i\<ge>drawn st. g = format_guid (u i) \<and> drawn st' = Suc i)"
proof -
  from assms obtain k where w: "while_duplicated u (guids st) (Suc (drawn st))
             (format_guid (u (drawn st))) = Some (g, k)"
    and st': "st' = \<lparr>drawn = k, guids = guids st @ [g]\<rparr>"
    by (auto simp: create_guid_def split: option.splits)
  from while_sound [OF w] have n: "g \<notin> set (guids st)"
    and d: "(g, k) = (format_guid (u (drawn st)), Suc (drawn st))
        \<or> (\<exists>i\<ge>Suc (drawn st). (g, k) = (format_guid (u i), Suc i))"
    by simp_all
  from d have "\<exists>i\<ge>drawn st. g = format_guid (u i) \<and> k = Suc i"
  proof
    assume "(g, k) = (format_guid (u (drawn st)), Suc (drawn st))"
    then show ?thesis by blast
  next
    assume "\<exists>i\<ge>Suc (drawn st). (g, k) = (format_guid (u i), Suc i)"
    then obtain i where "Suc (drawn st) \<le> i" "g = format_guid (u i)" "k = Suc i" by blast
    then have "drawn st \<le> i \<and> g = format_guid (u i) \<and> k = Suc i" by simp
    then show ?thesis by blast
  qed
  with n st' show ?thesis by simp
qed

lemma create_guids_sound:
  "create_guids u n st = Some (gs, st')
   \<Longrightarrow> length gs = n \<and> distinct gs \<and> set gs \<inter> set (guids st) = {}
       \<and> guids st' = guids st @ gs \<and> list_all (\<lambda>g. \<exists>i. g = format_guid (u i)) gs"
proof (induction n arbitrary: st gs)
  case 0
  then show ?case by simp
next
  case (Suc n)
  from Suc.prems obtain g st1 gs1 where
    c1: "create_guid u st = Some (g, st1)" and
    c2: "create_guids u n st1 = Some (gs1, st')" and
    gs: "gs = g # gs1"
    by (auto split: option.splits)
  from create_guid_sound [OF c1] have n: "g \<notin> set (guids st)"
    and a: "guids st1 = guids st @ [g]" and f: "\<exists>i. g = format_guid (u i)"
    by blast+
  from Suc.IH [OF c2] have len: "length gs1 = n" and d: "distinct gs1"
    and dis: "set gs1 \<inter> set (guids st1) = {}" and a': "guids st' = guids st1 @ gs1"
    and fs: "list_all (\<lambda>g. \<exists>i. g = format_guid (u i)) gs1"
    by blast+
  from dis a have "g \<notin> set gs1" and "set gs1 \<inter> set (guids st) = {}"
    by auto
  with n a a' len d f fs gs show ?case by auto
qed


lemma create_guid_returns:
  assumes inj: "inj_on (\<lambda>j. format_guid (u j)) {k..<W}"
    and slack: "card {j. k \<le> j \<and> j < W \<and> format_guid (u j) \<in> set gs} < W - k"
  shows "\<exists>i g. k \<le> i \<and> i < W
           \<and> create_guid u \<lparr>drawn = k, guids = gs\<rparr> = Some (g, \<lparr>drawn = Suc i, guids = gs @ [g]\<rparr>)
           \<and> card {j. Suc i \<le> j \<and> j < W \<and> format_guid (u j) \<in> set (gs @ [g])} + (i - k)
               = card {j. k \<le> j \<and> j < W \<and> format_guid (u j) \<in> set gs}"
proof -
  let ?f = "\<lambda>j. format_guid (u j)"
  let ?B = "{j. k \<le> j \<and> j < W \<and> ?f j \<in> set gs}"
  have sub: "?B \<subseteq> {k..<W}" by auto
  have "?B \<noteq> {k..<W}"
  proof
    assume "?B = {k..<W}"
    then have "card ?B = card {k..<W}" by (rule arg_cong)
    with slack show False by simp
  qed
  with sub have "\<exists>x. x \<in> {k..<W} \<and> x \<notin> ?B" by blast
  then obtain i0 where "i0 \<in> {k..<W}" "i0 \<notin> ?B" by blast
  then have i0: "k \<le> i0" "i0 < W" "?f i0 \<notin> set gs"
    by simp_all
  define i where "i = (LEAST i. k \<le> i \<and> ?f i \<notin> set gs)"
  have iP: "k \<le> i \<and> ?f i \<notin> set gs"
    unfolding i_def by (rule LeastI [of "\<lambda>i. k \<le> i \<and> ?f i \<notin> set gs" i0]) (use i0 in simp)
  have ile: "i \<le> i0"
    unfolding i_def by (rule Least_le) (use i0 in simp)
  have before: "\<forall>t. k \<le> t \<and> t < i \<longrightarrow> ?f t \<in> set gs"
  proof (intro allI impI)
    fix t assume t: "k \<le> t \<and> t < i"
    show "?f t \<in> set gs"
    proof (rule ccontr)
      assume "?f t \<notin> set gs"
      with t have "i \<le> t" unfolding i_def by (intro Least_le) simp
      with t show False by simp
    qed
  qed
  have w: "while_duplicated u gs (Suc k) (?f k) = Some (?f i, Suc i)"
    using while_returns [of k i u gs] iP before by blast
  have cg: "create_guid u \<lparr>drawn = k, guids = gs\<rparr>
              = Some (?f i, \<lparr>drawn = Suc i, guids = gs @ [?f i]\<rparr>)"
    using w by (simp add: create_guid_def)
  let ?B' = "{j. Suc i \<le> j \<and> j < W \<and> ?f j \<in> set (gs @ [?f i])}"
  have iW: "i < W" using ile i0 by simp
  have noteq: "?f j \<noteq> ?f i" if "Suc i \<le> j" "j < W" for j
  proof
    assume "?f j = ?f i"
    moreover have "j \<in> {k..<W}" "i \<in> {k..<W}" using that iP iW by auto
    ultimately have "j = i" using inj by (auto dest: inj_onD)
    with that show False by simp
  qed
  have B'eq: "?B' = {j. Suc i \<le> j \<and> j < W \<and> ?f j \<in> set gs}"
  proof (intro set_eqI iffI)
    fix j assume "j \<in> ?B'"
    then have j: "Suc i \<le> j" "j < W" "?f j \<in> set (gs @ [?f i])" by simp_all
    from noteq [OF j(1,2)] j(3) have "?f j \<in> set gs" by simp
    with j show "j \<in> {j. Suc i \<le> j \<and> j < W \<and> ?f j \<in> set gs}" by simp
  next
    fix j assume "j \<in> {j. Suc i \<le> j \<and> j < W \<and> ?f j \<in> set gs}"
    then show "j \<in> ?B'" by simp
  qed
  have split: "?B = ?B' \<union> {k..<i}"
  proof -
    have "?B = {j. Suc i \<le> j \<and> j < W \<and> ?f j \<in> set gs} \<union> {k..<i}"
    proof (intro set_eqI iffI)
      fix j assume "j \<in> ?B"
      then have j: "k \<le> j" "j < W" "?f j \<in> set gs" by auto
      with iP have "j \<noteq> i" by blast
      then have "Suc i \<le> j \<or> j < i" by arith
      with j show "j \<in> {j. Suc i \<le> j \<and> j < W \<and> ?f j \<in> set gs} \<union> {k..<i}"
        by simp
    next
      fix j assume "j \<in> {j. Suc i \<le> j \<and> j < W \<and> ?f j \<in> set gs} \<union> {k..<i}"
      then have "(Suc i \<le> j \<and> j < W \<and> ?f j \<in> set gs) \<or> (k \<le> j \<and> j < i)"
        by simp
      then show "j \<in> ?B"
      proof
        assume a: "Suc i \<le> j \<and> j < W \<and> ?f j \<in> set gs"
        with iP have "k \<le> j" by simp
        with a show ?thesis by simp
      next
        assume a: "k \<le> j \<and> j < i"
        with before have "?f j \<in> set gs" by blast
        moreover from a iW have "j < W" by simp
        ultimately show ?thesis using a by simp
      qed
    qed
    with B'eq show ?thesis by simp
  qed
  have disj: "?B' \<inter> {k..<i} = {}"
  proof (rule ccontr)
    assume "?B' \<inter> {k..<i} \<noteq> {}"
    then obtain j where "j \<in> ?B'" "j \<in> {k..<i}" by blast
    then have "Suc i \<le> j" "j < i" by simp_all
    then show False by simp
  qed
  have fin: "finite ?B'" by simp
  have "card ?B = card ?B' + card {k..<i}"
    using card_Un_disjoint [OF fin _ disj] split by simp
  then have "card ?B' + (i - k) = card ?B" by simp
  with iP iW cg show ?thesis by blast
qed

lemma create_guids_returns:
  "inj_on (\<lambda>j. format_guid (u j)) {k..<W}
   \<Longrightarrow> n + card {j. k \<le> j \<and> j < W \<and> format_guid (u j) \<in> set gs} \<le> W - k
   \<Longrightarrow> \<exists>r. create_guids u n \<lparr>drawn = k, guids = gs\<rparr> = Some r"
proof (induction n arbitrary: k gs)
  case 0
  then show ?case by simp
next
  case (Suc n)
  let ?f = "\<lambda>j. format_guid (u j)"
  from Suc.prems(2) have slack: "card {j. k \<le> j \<and> j < W \<and> ?f j \<in> set gs} < W - k"
    by simp
  from create_guid_returns [OF Suc.prems(1) slack] obtain i g where
    ki: "k \<le> i" and iW: "i < W" and
    cg: "create_guid u \<lparr>drawn = k, guids = gs\<rparr> = Some (g, \<lparr>drawn = Suc i, guids = gs @ [g]\<rparr>)" and
    cd: "card {j. Suc i \<le> j \<and> j < W \<and> ?f j \<in> set (gs @ [g])} + (i - k)
               = card {j. k \<le> j \<and> j < W \<and> ?f j \<in> set gs}"
    by blast
  have inj': "inj_on ?f {Suc i..<W}"
    by (rule inj_on_subset [OF Suc.prems(1)]) (use ki in auto)
  have "n + card {j. Suc i \<le> j \<and> j < W \<and> ?f j \<in> set (gs @ [g])} \<le> W - Suc i"
    using Suc.prems(2) cd ki iW by linarith
  from Suc.IH [OF inj' this] obtain r where
    "create_guids u n \<lparr>drawn = Suc i, guids = gs @ [g]\<rparr> = Some r" by blast
  with cg show ?case by (cases r) simp
qed

lemma bad_draws_bound:
  assumes inj: "inj_on (\<lambda>j. format_guid (u j)) {k..<W}"
  shows "card {j. k \<le> j \<and> j < W \<and> format_guid (u j) \<in> set gs} \<le> length gs"
proof -
  let ?f = "\<lambda>j. format_guid (u j)"
  let ?B = "{j. k \<le> j \<and> j < W \<and> ?f j \<in> set gs}"
  have "inj_on ?f ?B" by (rule inj_on_subset [OF inj]) auto
  then have "card ?B = card (?f ` ?B)" by (simp add: card_image)
  also have "\<dots> \<le> card (set gs)" by (rule card_mono) auto
  also have "\<dots> \<le> length gs" by (rule card_length)
  finally show ?thesis .
qed

lemma format_guid_inj_on:
  assumes "\<forall>j. hex32 (u j)" "inj_on u A"
  shows "inj_on (\<lambda>j. format_guid (u j)) A"
proof (rule inj_onI)
  fix x y assume "x \<in> A" "y \<in> A" "format_guid (u x) = format_guid (u y)"
  moreover from assms(1) have "length (u x) = 32" "length (u y) = 32"
    by (simp_all add: hex32_def)
  ultimately show "x = y"
    using format_guid_inj assms(2) by (blast dest: inj_onD)
qed

text \<open>
  C4. \<open>N\<close> calls of \<open>create_guid\<close> in one session: whenever the calls return,
  they return \<open>N\<close> pairwise distinct strings, none of them issued before, each of the
  form 8-4-4-4-12 in hexadecimal digits; and they do return when the next
  \<open>N + length guids\<close> values of the random source are pairwise distinct. The random
  source is taken to return 32 hexadecimal digits, as \<open>uuid4().hex\<close> does.
\<close>

theorem create_guid_distinct_canonical:
  assumes hex: "\<forall>j. hex32 (uuid4_hex j)"
  shows "(create_guids uuid4_hex N st = Some (gs, st')
            \<longrightarrow> length gs = N \<and> distinct gs \<and> list_all canonical_guid gs
                \<and> set gs \<inter> set (guids st) = {})
         \<and> (inj_on uuid4_hex {drawn st..<drawn st + N + length (guids st)}
            \<longrightarrow> (\<exists>gs st'. create_guids uuid4_hex N st = Some (gs, st')))"
proof (intro conjI impI)
  assume c: "create_guids uuid4_hex N st = Some (gs, st')"
  from create_guids_sound [OF c] have len: "length gs = N" and d: "distinct gs"
    and dis: "set gs \<inter> set (guids st) = {}"
    and fs: "list_all (\<lambda>g. \<exists>i. g = format_guid (uuid4_hex i)) gs"
    by blast+
  have "list_all canonical_guid gs"
    unfolding list_all_iff
  proof
    fix g assume "g \<in> set gs"
    with fs obtain i where "g = format_guid (uuid4_hex i)"
      by (auto simp: list_all_iff)
    with hex show "canonical_guid g"
      by (simp add: format_guid_canonical)
  qed
  with len d dis show "length gs = N" "distinct gs" "list_all canonical_guid gs"
    "set gs \<inter> set (guids st) = {}" by simp_all
next
  let ?W = "drawn st + N + length (guids st)"
  assume "inj_on uuid4_hex {drawn st..<?W}"
  with hex have inj: "inj_on (\<lambda>j. format_guid (uuid4_hex j)) {drawn st..<?W}"
    by (rule format_guid_inj_on)
  have "N + card {j. drawn st \<le> j \<and> j < ?W \<and> format_guid (uuid4_hex j) \<in> set (guids st)}
          \<le> ?W - drawn st"
    using bad_draws_bound [OF inj, of "guids st"] by simp
  from create_guids_returns [OF inj this] obtain r where
    "create_guids uuid4_hex N \<lparr>drawn = drawn st, guids = guids st\<rparr> = Some r" by blast
  moreover have "\<lparr>drawn = drawn st, guids = guids st\<rparr> = st" by simp
  ultimately show "\<exists>gs st'. create_guids uuid4_hex N st = Some (gs, st')"
    by (cases r) simp
qed

text \<open>The example source gives 32 hexadecimal digits at every draw.\<close>

lemma counting_hex_hex32: "hex32 (counting_hex j)"
proof -
  have "j mod 16 < 16" by simp
  then have "j mod 16 \<in> set [0..<16]" by simp
  then have "is_hex (''0123456789abcdef'' ! (j mod 16))"
    unfolding is_hex_def by (simp add: upt_rec) (elim disjE; simp)
  then show ?thesis
    by (simp add: hex32_def counting_hex_def is_hex_def)
qed

theorem create_guid_distinct_canonical_witness:
  "(\<forall>j. hex32 (counting_hex j))
   \<and> inj_on counting_hex {0..<3}
   \<and> create_guids counting_hex 2 \<lparr>drawn = 0, guids = [''00000000-0000-0000-0000-000000000000'']\<rparr>
      = Some ([''00000000-0000-0000-0000-000000000001'', ''00000000-0000-0000-0000-000000000002''],
              \<lparr>drawn = 3, guids = [''00000000-0000-0000-0000-000000000000'',
                 ''00000000-0000-0000-0000-000000000001'', ''00000000-0000-0000-0000-000000000002'']\<rparr>)
   \<and> distinct [''00000000-0000-0000-0000-000000000001'', ''00000000-0000-0000-0000-000000000002'']
   \<and> list_all canonical_guid
        [''00000000-0000-0000-0000-000000000001'', ''00000000-0000-0000-0000-000000000002'']"
proof -
  have h: "\<forall>j. hex32 (counting_hex j)" by (simp add: counting_hex_hex32)
  have i: "inj_on counting_hex {0..<3}"
    by (simp add: inj_on_def counting_hex_def atLeastLessThan_upt upt_rec)
  have c: "create_guids counting_hex 2 \<lparr>drawn = 0, guids = [''00000000-0000-0000-0000-000000000000'']\<rparr>
      = Some ([''00000000-0000-0000-0000-000000000001'', ''00000000-0000-0000-0000-000000000002''],
              \<lparr>drawn = 3, guids = [''00000000-0000-0000-0000-000000000000'',
                 ''00000000-0000-0000-0000-000000000001'', ''00000000-0000-0000-0000-000000000002'']\<rparr>)"
    by (simp add: numeral_2_eq_2 create_guid_def while_duplicated.simps format_guid_def
        counting_hex_def py_slice_def slice_bound_def)
  from create_guid_distinct_canonical [OF h, of 2
      "\<lparr>drawn = 0, guids = [''00000000-0000-0000-0000-000000000000'']\<rparr>"
      "[''00000000-0000-0000-0000-000000000001'', ''00000000-0000-0000-0000-000000000002'']"
      "\<lparr>drawn = 3, guids = [''00000000-0000-0000-0000-000000000000'',
                 ''00000000-0000-0000-0000-000000000001'', ''00000000-0000-0000-0000-000000000002'']\<rparr>"]
  have "distinct [''00000000-0000-0000-0000-000000000001'', ''00000000-0000-0000-0000-000000000002'']
    \<and> list_all canonical_guid
        [''00000000-0000-0000-0000-000000000001'', ''00000000-0000-0000-0000-000000000002'']"
    using c by blast
  with h i c show ?thesis
    by blast
qed

section \<open>Properties of the codebook import\<close>

lemma adds_refl: "adds st 0 st"
  by (simp add: adds_def)

lemma name_taken_mono: "name_taken n xs \<Longrightarrow> name_taken n (xs @ ys)"
  by (simp add: name_taken_def)

lemma adds_trans:
  assumes "adds st a st1" "adds st1 b st2"
  shows "adds st (a + b) st2"
proof -
  from assms(1) obtain cs ks where 1:
    "code_cat (conn st1) = code_cat (conn st) @ cs"
    "code_name (conn st1) = code_name (conn st) @ ks"
    "a = length cs + length ks"
    "list_all (\<lambda>r. \<not> name_taken (cc_name r) (map cc_name (code_cat (conn st)))) cs"
    "list_all (\<lambda>r. \<not> name_taken (cn_name r) (map cn_name (code_name (conn st)))) ks"
    unfolding adds_def by blast
  from assms(2) obtain cs' ks' where 2:
    "code_cat (conn st2) = code_cat (conn st1) @ cs'"
    "code_name (conn st2) = code_name (conn st1) @ ks'"
    "b = length cs' + length ks'"
    "list_all (\<lambda>r. \<not> name_taken (cc_name r) (map cc_name (code_cat (conn st1)))) cs'"
    "list_all (\<lambda>r. \<not> name_taken (cn_name r) (map cn_name (code_name (conn st1)))) ks'"
    unfolding adds_def by blast
  have c: "list_all (\<lambda>r. \<not> name_taken (cc_name r) (map cc_name (code_cat (conn st)))) cs'"
    using 2(4) 1(1) by (auto simp: list_all_iff name_taken_def)
  have k: "list_all (\<lambda>r. \<not> name_taken (cn_name r) (map cn_name (code_name (conn st)))) ks'"
    using 2(5) 1(2) by (auto simp: list_all_iff name_taken_def)
  show ?thesis
    unfolding adds_def
    by (rule exI [of _ "cs @ cs'"], rule exI [of _ "ks @ ks'"])
       (use 1 2 c k in simp)
qed

lemma try_insert_code_adds:
  "try_insert_code now parent n d cat st = (c, st') \<Longrightarrow> adds st c st'"
  by (auto simp: try_insert_code_def insert_code_name_def adds_def Let_def split: if_splits)

lemma try_insert_category_adds:
  "try_insert_category now n d cat st = (i, c, st') \<Longrightarrow> adds st c st'"
  by (auto simp: try_insert_category_def insert_code_cat_def adds_def Let_def split: if_splits)

lemma insert_category_and_code_adds:
  assumes "insert_category_and_code now parent cat st = (i, c, st')"
  shows "adds st c st'"
proof (cases "get parent ''name'' = None")
  case True
  with assms show ?thesis by (simp add: insert_category_and_code_def adds_refl)
next
  case False
  obtain i1 c1 st1 where t1: "try_insert_category now (get parent ''name'')
      (description_of (el_children parent)) cat st = (i1, c1, st1)"
    by (metis prod_cases3)
  note a1 = try_insert_category_adds [OF t1]
  show ?thesis
  proof (cases "get parent ''isCodable'' = Some ''true''")
    case True
    obtain c2 st2 where t2: "try_insert_code now parent (get parent ''name'')
        (description_of (el_children parent)) i1 st1 = (c2, st2)"
      by (metis surj_pair)
    from assms False True t1 t2 have "c = c1 + c2" "st' = st2"
      by (simp_all add: insert_category_and_code_def Let_def)
    with adds_trans [OF a1 try_insert_code_adds [OF t2]] show ?thesis by simp
  next
    case no: False
    from assms False no t1 have "c = c1" "st' = st1"
      by (simp_all add: insert_category_and_code_def Let_def)
    with a1 show ?thesis by simp
  qed
qed

lemma sub_codes_adds:
  "adds st (fst (sub_codes now e cat st)) (snd (sub_codes now e cat st))"
  "adds st (fst (sub_codes_children now es cat st)) (snd (sub_codes_children now es cat st))"
proof (induction now e cat st and now es cat st rule: sub_codes_sub_codes_children.induct)
  case (1 now t a x elements cat_id st)
  let ?parent = "Element t a x elements"
  show ?case
  proof (cases "list_ex is_code elements")
    case True
    obtain i c st1 where ic: "insert_category_and_code now ?parent cat_id st = (i, c, st1)"
      by (metis prod_cases3)
    obtain c' st2 where ch: "sub_codes_children now elements i st1 = (c', st2)"
      by (metis surj_pair)
    have "adds st1 c' st2"
      using "1.IH" [OF refl refl True ic [symmetric] refl] ch by simp
    with insert_category_and_code_adds [OF ic] have "adds st (c + c') st2"
      by (rule adds_trans)
    with True ic ch show ?thesis by (simp add: Let_def)
  next
    case False
    then show ?thesis
      by (auto simp: Let_def adds_refl intro: try_insert_code_adds prod.collapse)
  qed
next
  case (2 now last_insert_id st)
  show ?case by (simp add: adds_refl)
next
  case (3 now e es last_insert_id st)
  show ?case
  proof (cases "is_description e")
    case True
    with "3.IH"(3) show ?thesis by simp
  next
    case False
    obtain c st1 where s: "sub_codes now e last_insert_id st = (c, st1)"
      by (metis surj_pair)
    obtain c' st2 where ch: "sub_codes_children now es last_insert_id st1 = (c', st2)"
      by (metis surj_pair)
    have a1: "adds st c st1" using "3.IH"(1) [OF False] s by simp
    have a2: "adds st1 c' st2" using "3.IH"(2) [OF False s [symmetric]] ch by simp
    from adds_trans [OF a1 a2] False s ch show ?thesis by simp
  qed
qed

text \<open>
  C7. A uniqueness violation on inserting a code or a category is caught where the row
  is inserted: the insertion gives back the state as it was and counts nothing, and
  \<open>sub_codes\<close> goes on. So a run of \<open>sub_codes\<close> on any element leaves every row that
  was there unchanged, appends rows whose names were not taken, and returns the number
  of rows it appended: a skipped duplicate is not counted.
\<close>

theorem sub_codes_skips_duplicates:
  "(name_taken n (map cn_name (code_name (conn st)))
      \<longrightarrow> try_insert_code now_date parent n d cat st = (0, st))
   \<and> (name_taken n (map cc_name (code_cat (conn st)))
      \<longrightarrow> try_insert_category now_date n d cat st = (None, 0, st))
   \<and> (\<exists>cs ks. code_cat (conn (snd (sub_codes now_date e cat st))) = code_cat (conn st) @ cs
         \<and> code_name (conn (snd (sub_codes now_date e cat st))) = code_name (conn st) @ ks
         \<and> fst (sub_codes now_date e cat st) = length cs + length ks
         \<and> list_all (\<lambda>r. \<not> name_taken (cc_name r) (map cc_name (code_cat (conn st)))) cs
         \<and> list_all (\<lambda>r. \<not> name_taken (cn_name r) (map cn_name (code_name (conn st)))) ks)"
proof (intro conjI impI)
  assume "name_taken n (map cn_name (code_name (conn st)))"
  then show "try_insert_code now_date parent n d cat st = (0, st)"
    by (simp add: try_insert_code_def insert_code_name_def)
next
  assume "name_taken n (map cc_name (code_cat (conn st)))"
  then show "try_insert_category now_date n d cat st = (None, 0, st)"
    by (simp add: try_insert_category_def insert_code_cat_def)
next
  from sub_codes_adds(1) [of st now_date e cat]
  show "\<exists>cs ks. code_cat (conn (snd (sub_codes now_date e cat st))) = code_cat (conn st) @ cs
         \<and> code_name (conn (snd (sub_codes now_date e cat st))) = code_name (conn st) @ ks
         \<and> fst (sub_codes now_date e cat st) = length cs + length ks
         \<and> list_all (\<lambda>r. \<not> name_taken (cc_name r) (map cc_name (code_cat (conn st)))) cs
         \<and> list_all (\<lambda>r. \<not> name_taken (cn_name r) (map cn_name (code_name (conn st)))) ks"
    unfolding adds_def .
qed

theorem sub_codes_skips_duplicates_witness:
  "name_taken (Some ''Trust'') (map cn_name (code_name (conn example_importer)))
   \<and> sub_codes ''2024-02-02 10:00:00''
        (Element (project_ns @ ''Code'') [(''guid'', ''c-9''), (''name'', ''Trust'')] None [])
        (Some 4) example_importer = (0, example_importer)
   \<and> name_taken (Some ''Themes'') (map cc_name (code_cat (conn example_importer)))
   \<and> try_insert_category ''2024-02-02 10:00:00'' (Some ''Themes'') (Some []) None example_importer
       = (None, 0, example_importer)"
proof -
  let ?e = "Element (project_ns @ ''Code'') [(''guid'', ''c-9''), (''name'', ''Trust'')] None []"
  have t1: "name_taken (Some ''Trust'') (map cn_name (code_name (conn example_importer)))"
    by (simp add: name_taken_def example_importer_def)
  have t2: "name_taken (Some ''Themes'') (map cc_name (code_cat (conn example_importer)))"
    by (simp add: name_taken_def example_importer_def)
  note T = sub_codes_skips_duplicates [of "Some ''Trust''" example_importer "''2024-02-02 10:00:00''"
      ?e "Some []" "Some 4" ?e]
  from T t1 have c: "try_insert_code ''2024-02-02 10:00:00'' ?e (Some ''Trust'') (Some [])
      (Some 4) example_importer = (0, example_importer)"
    by blast
  have s: "sub_codes ''2024-02-02 10:00:00'' ?e (Some 4) example_importer
      = try_insert_code ''2024-02-02 10:00:00'' ?e (Some ''Trust'') (Some [])
      (Some 4) example_importer"
    by (simp add: get_def description_of_def)
  from sub_codes_skips_duplicates [of "Some ''Themes''" example_importer "''2024-02-02 10:00:00''"
      ?e "Some []" None ?e] t2
  have k: "try_insert_category ''2024-02-02 10:00:00'' (Some ''Themes'') (Some []) None
      example_importer = (None, 0, example_importer)"
    by blast
  from t1 t2 c s k show ?thesis by simp
qed

lemma filter_none:
  "list_all (\<lambda>r. \<not> P r) xs \<Longrightarrow> filter P xs = []"
  by (induction xs) auto

text \<open>
  C3. An element with Code children, \<open>isCodable="true"\<close> and a name that is in neither
  code table: before its children are read, \<open>sub_codes\<close> has inserted exactly one
  category row and one code row, both with the element's name, and the code's category
  id is the id of the new category row. When \<open>sub_codes\<close> returns, these are the only
  rows with that name in the two tables.
\<close>

theorem codable_category_one_of_each:
  assumes kids: "list_ex is_code elements"
    and codable: "get (Element t a x elements) ''isCodable'' = Some ''true''"
    and nm: "get (Element t a x elements) ''name'' = Some n"
    and free_cat: "\<not> name_taken (Some n) (map cc_name (code_cat (conn st)))"
    and free_code: "\<not> name_taken (Some n) (map cn_name (code_name (conn st)))"
  shows "\<exists>cat code st1.
           insert_category_and_code now_date (Element t a x elements) cat_id st
             = (Some (cc_catid cat), 2, st1)
         \<and> code_cat (conn st1) = code_cat (conn st) @ [cat]
         \<and> code_name (conn st1) = code_name (conn st) @ [code]
         \<and> cc_name cat = Some n \<and> cn_name code = Some n
         \<and> cc_supercatid cat = cat_id
         \<and> cn_catid code = Some (cc_catid cat)
         \<and> filter (\<lambda>r. cc_name r = Some n)
              (code_cat (conn (snd (sub_codes now_date (Element t a x elements) cat_id st)))) = [cat]
         \<and> filter (\<lambda>r. cn_name r = Some n)
              (code_name (conn (snd (sub_codes now_date (Element t a x elements) cat_id st)))) = [code]"
proof -
  let ?parent = "Element t a x elements"
  let ?d = "description_of elements"
  define i where "i = next_rowid (map cc_catid (code_cat (conn st)))"
  define cat where "cat = \<lparr>cc_catid = i, cc_name = Some n, cc_memo = ?d, cc_owner = [],
     cc_date = now_date, cc_supercatid = cat_id\<rparr>"
  define k where "k = next_rowid (map cn_cid (code_name (conn st)))"
  define code where "code = \<lparr>cn_cid = k, cn_name = Some n, cn_memo = ?d, cn_owner = [],
     cn_date = now_date, cn_catid = Some i, cn_color = color_of ?parent\<rparr>"
  define st1 where "st1 = st\<lparr>conn := (conn st)\<lparr>code_cat := code_cat (conn st) @ [cat],
      code_name := code_name (conn st) @ [code]\<rparr>,
      codes := codes st @ [(get ?parent ''guid'', k)]\<rparr>"
  have ic: "insert_category_and_code now_date ?parent cat_id st = (Some i, 2, st1)"
    using codable nm free_cat free_code
    by (simp add: insert_category_and_code_def try_insert_category_def insert_code_cat_def
        try_insert_code_def insert_code_name_def Let_def i_def cat_def k_def code_def st1_def)
  have c1: "code_cat (conn st1) = code_cat (conn st) @ [cat]"
    and k1: "code_name (conn st1) = code_name (conn st) @ [code]"
    by (simp_all add: st1_def)
  obtain c' st2 where ch: "sub_codes_children now_date elements (Some i) st1 = (c', st2)"
    by (metis surj_pair)
  have fin: "snd (sub_codes now_date ?parent cat_id st) = st2"
    using kids ic ch by (simp add: Let_def)
  from sub_codes_adds(2) [of st1 now_date elements "Some i"] ch
  have "adds st1 c' st2" by simp
  then obtain cs ks where
    cs: "code_cat (conn st2) = code_cat (conn st1) @ cs" and
    ks: "code_name (conn st2) = code_name (conn st1) @ ks" and
    ncs: "list_all (\<lambda>r. \<not> name_taken (cc_name r) (map cc_name (code_cat (conn st1)))) cs" and
    nks: "list_all (\<lambda>r. \<not> name_taken (cn_name r) (map cn_name (code_name (conn st1)))) ks"
    unfolding adds_def by blast
  have "list_all (\<lambda>r. \<not> cc_name r = Some n) cs"
    using ncs c1 by (auto simp: list_all_iff name_taken_def cat_def)
  then have f1: "filter (\<lambda>r. cc_name r = Some n) cs = []"
    by (rule filter_none)
  have "list_all (\<lambda>r. \<not> cn_name r = Some n) ks"
    using nks k1 by (auto simp: list_all_iff name_taken_def code_def)
  then have f2: "filter (\<lambda>r. cn_name r = Some n) ks = []"
    by (rule filter_none)
  have "list_all (\<lambda>r. \<not> cc_name r = Some n) (code_cat (conn st))"
    using free_cat by (force simp: list_all_iff name_taken_def)
  then have f3: "filter (\<lambda>r. cc_name r = Some n) (code_cat (conn st)) = []"
    by (rule filter_none)
  have "list_all (\<lambda>r. \<not> cn_name r = Some n) (code_name (conn st))"
    using free_code by (force simp: list_all_iff name_taken_def)
  then have f4: "filter (\<lambda>r. cn_name r = Some n) (code_name (conn st)) = []"
    by (rule filter_none)
  have r1: "filter (\<lambda>r. cc_name r = Some n) (code_cat (conn st2)) = [cat]"
    using cs c1 f1 f3 by (simp add: cat_def)
  have r2: "filter (\<lambda>r. cn_name r = Some n) (code_name (conn st2)) = [code]"
    using ks k1 f2 f4 by (simp add: code_def)
  have p: "cc_catid cat = i" "cc_name cat = Some n" "cn_name code = Some n"
    "cc_supercatid cat = cat_id" "cn_catid code = Some (cc_catid cat)"
    by (simp_all add: cat_def code_def)
  show ?thesis
    apply (rule exI [of _ cat], rule exI [of _ code], rule exI [of _ st1])
    using ic c1 k1 p r1 r2 fin by simp
qed

theorem codable_category_one_of_each_witness:
  "list_ex is_code (el_children example_category)
   \<and> get example_category ''isCodable'' = Some ''true''
   \<and> get example_category ''name'' = Some ''Care''
   \<and> \<not> name_taken (Some ''Care'') (map cc_name (code_cat (conn example_importer)))
   \<and> \<not> name_taken (Some ''Care'') (map cn_name (code_name (conn example_importer)))
   \<and> fst (sub_codes ''2024-02-02 10:00:00'' example_category None example_importer) = 3
   \<and> filter (\<lambda>r. cc_name r = Some ''Care'')
        (code_cat (conn (snd (sub_codes ''2024-02-02 10:00:00'' example_category None
           example_importer))))
      = [\<lparr>cc_catid = 5, cc_name = Some ''Care'', cc_memo = Some ''about care'', cc_owner = [],
           cc_date = ''2024-02-02 10:00:00'', cc_supercatid = None\<rparr>]
   \<and> filter (\<lambda>r. cn_name r = Some ''Care'')
        (code_name (conn (snd (sub_codes ''2024-02-02 10:00:00'' example_category None
           example_importer))))
      = [\<lparr>cn_cid = 8, cn_name = Some ''Care'', cn_memo = Some ''about care'', cn_owner = [],
           cn_date = ''2024-02-02 10:00:00'', cn_catid = Some 5, cn_color = ''#999999''\<rparr>]
   \<and> cn_catid (hd (filter (\<lambda>r. cn_name r = Some ''Care'')
        (code_name (conn (snd (sub_codes ''2024-02-02 10:00:00'' example_category None
           example_importer))))))
      = Some (cc_catid (hd (filter (\<lambda>r. cc_name r = Some ''Care'')
        (code_cat (conn (snd (sub_codes ''2024-02-02 10:00:00'' example_category None
           example_importer)))))))"
proof -
  have h1: "list_ex is_code (el_children example_category)"
    by (simp add: example_category_def is_code_def project_ns_def codebook_ns_def)
  have h2: "get example_category ''isCodable'' = Some ''true''"
    and h3: "get example_category ''name'' = Some ''Care''"
    by (simp_all add: example_category_def get_def)
  have h4: "\<not> name_taken (Some ''Care'') (map cc_name (code_cat (conn example_importer)))"
    and h5: "\<not> name_taken (Some ''Care'') (map cn_name (code_name (conn example_importer)))"
    by (simp_all add: example_importer_def name_taken_def)
  have ev: "sub_codes ''2024-02-02 10:00:00'' example_category None example_importer
      = (3, example_importer\<lparr>conn := (conn example_importer)\<lparr>
           code_cat := code_cat (conn example_importer) @
             [\<lparr>cc_catid = 5, cc_name = Some ''Care'', cc_memo = Some ''about care'',
               cc_owner = [], cc_date = ''2024-02-02 10:00:00'', cc_supercatid = None\<rparr>],
           code_name := code_name (conn example_importer) @
             [\<lparr>cn_cid = 8, cn_name = Some ''Care'', cn_memo = Some ''about care'', cn_owner = [],
               cn_date = ''2024-02-02 10:00:00'', cn_catid = Some 5, cn_color = ''#999999''\<rparr>,
              \<lparr>cn_cid = 9, cn_name = Some ''Help'', cn_memo = Some [], cn_owner = [],
               cn_date = ''2024-02-02 10:00:00'', cn_catid = Some 5, cn_color = ''#999999''\<rparr>]\<rparr>,
           codes := codes example_importer @ [(Some ''c-10'', 8), (Some ''c-12'', 9)]\<rparr>)"
    by (simp add: example_category_def example_importer_def is_code_def is_description_def
        project_ns_def codebook_ns_def get_def description_of_def color_of_def Let_def
        insert_category_and_code_def try_insert_category_def try_insert_code_def
        insert_code_cat_def insert_code_name_def name_taken_def next_rowid_def)
  from codable_category_one_of_each [of "el_children example_category" "el_tag example_category"
      "el_attrib example_category" "el_text example_category" "''Care''" example_importer
      "''2024-02-02 10:00:00''" None]
  obtain cat code where
    "filter (\<lambda>r. cc_name r = Some ''Care'')
        (code_cat (conn (snd (sub_codes ''2024-02-02 10:00:00'' example_category None
           example_importer)))) = [cat]"
    "filter (\<lambda>r. cn_name r = Some ''Care'')
        (code_name (conn (snd (sub_codes ''2024-02-02 10:00:00'' example_category None
           example_importer)))) = [code]"
    "cn_catid code = Some (cc_catid cat)"
    using h1 h2 h3 h4 h5 by auto
  then have link: "cn_catid (hd (filter (\<lambda>r. cn_name r = Some ''Care'')
        (code_name (conn (snd (sub_codes ''2024-02-02 10:00:00'' example_category None
           example_importer))))))
      = Some (cc_catid (hd (filter (\<lambda>r. cc_name r = Some ''Care'')
        (code_cat (conn (snd (sub_codes ''2024-02-02 10:00:00'' example_category None
           example_importer)))))))"
    by (simp only: list.sel)
  have r0: "fst (sub_codes ''2024-02-02 10:00:00'' example_category None example_importer) = 3"
    unfolding ev by simp
  have r1: "filter (\<lambda>r. cc_name r = Some ''Care'')
        (code_cat (conn (snd (sub_codes ''2024-02-02 10:00:00'' example_category None
           example_importer))))
      = [\<lparr>cc_catid = 5, cc_name = Some ''Care'', cc_memo = Some ''about care'', cc_owner = [],
           cc_date = ''2024-02-02 10:00:00'', cc_supercatid = None\<rparr>]"
    unfolding ev by (simp add: example_importer_def)
  have r2: "filter (\<lambda>r. cn_name r = Some ''Care'')
        (code_name (conn (snd (sub_codes ''2024-02-02 10:00:00'' example_category None
           example_importer))))
      = [\<lparr>cn_cid = 8, cn_name = Some ''Care'', cn_memo = Some ''about care'', cn_owner = [],
           cn_date = ''2024-02-02 10:00:00'', cn_catid = Some 5, cn_color = ''#999999''\<rparr>]"
    unfolding ev by (simp add: example_importer_def)
  from h1 h2 h3 h4 h5 r0 r1 r2 link show ?thesis
    by blast
qed

section \<open>Properties of the transcript import\<close>

lemma resolve_syncpoints_cons:
  assumes "resolve_syncpoints (s # ss) g0 g1 p0 p1 = Inr r"
  shows "\<exists>p0' p1'. resolve_syncpoints ss g0 g1 p0' p1' = Inr r
           \<and> (if g0 = sp_guid s then py_int (sp_pos s) = Inr (p0' - 1) else p0' = p0)
           \<and> (if g1 = sp_guid s then py_int (sp_pos s) = Inr (p1' - 1) else p1' = p1)"
proof (cases "py_int (sp_pos s)")
  case (Inl e)
  with assms have "g0 \<noteq> sp_guid s" "g1 \<noteq> sp_guid s"
    by (auto simp: ebind_def split: if_splits)
  with assms show ?thesis by (simp add: ebind_def)
next
  case (Inr v)
  with assms have "resolve_syncpoints ss g0 g1 (if g0 = sp_guid s then v + 1 else p0)
      (if g1 = sp_guid s then v + 1 else p1) = Inr r"
    by (simp add: ebind_def split: if_splits)
  then show ?thesis
    using Inr by (intro exI [of _ "if g0 = sp_guid s then v + 1 else p0"]
        exI [of _ "if g1 = sp_guid s then v + 1 else p1"]) simp
qed

lemma resolve_syncpoints_end:
  "resolve_syncpoints sps g0 g1 p0 p1 = Inr (q0, q1)
   \<Longrightarrow> (if filter (\<lambda>s. g1 = sp_guid s) sps = [] then q1 = p1
        else py_int (sp_pos (last (filter (\<lambda>s. g1 = sp_guid s) sps))) = Inr (q1 - 1))"
proof (induction sps arbitrary: p0 p1)
  case Nil
  then show ?case by simp
next
  case (Cons s sps)
  from resolve_syncpoints_cons [OF Cons.prems] obtain p0' p1' where
    r: "resolve_syncpoints sps g0 g1 p0' p1' = Inr (q0, q1)" and
    e: "if g1 = sp_guid s then py_int (sp_pos s) = Inr (p1' - 1) else p1' = p1"
    by blast
  note IH = Cons.IH [OF r]
  show ?case
  proof (cases "g1 = sp_guid s")
    case True
    with e IH show ?thesis by (simp split: if_splits)
  next
    case False
    with e IH show ?thesis by (simp split: if_splits)
  qed
qed

lemma resolve_syncpoints_start:
  "resolve_syncpoints sps g0 g1 p0 p1 = Inr (q0, q1)
   \<Longrightarrow> (if filter (\<lambda>s. g0 = sp_guid s) sps = [] then q0 = p0
        else py_int (sp_pos (last (filter (\<lambda>s. g0 = sp_guid s) sps))) = Inr (q0 - 1))"
proof (induction sps arbitrary: p0 p1)
  case Nil
  then show ?case by simp
next
  case (Cons s sps)
  from resolve_syncpoints_cons [OF Cons.prems] obtain p0' p1' where
    r: "resolve_syncpoints sps g0 g1 p0' p1' = Inr (q0, q1)" and
    e: "if g0 = sp_guid s then py_int (sp_pos s) = Inr (p0' - 1) else p0' = p0"
    by blast
  note IH = Cons.IH [OF r]
  show ?case
  proof (cases "g0 = sp_guid s")
    case True
    with e IH show ?thesis by (simp split: if_splits)
  next
    case False
    with e IH show ?thesis by (simp split: if_splits)
  qed
qed

lemma resolve_syncpoints_returns:
  "list_all (\<lambda>s. \<not> isl (py_int (sp_pos s))) sps
   \<Longrightarrow> \<exists>q0 q1. resolve_syncpoints sps g0 g1 p0 p1 = Inr (q0, q1)"
proof (induction sps arbitrary: p0 p1)
  case Nil
  then show ?case by simp
next
  case (Cons s sps)
  then obtain v where v: "py_int (sp_pos s) = Inr v"
    by (cases "py_int (sp_pos s)") auto
  from Cons.prems have "list_all (\<lambda>s. \<not> isl (py_int (sp_pos s))) sps" by simp
  from Cons.IH [OF this]
  have ex: "\<exists>q0 q1. resolve_syncpoints sps g0 g1 a b = Inr (q0, q1)" for a b .
  show ?case
  proof (cases "g0 = sp_guid s"; cases "g1 = sp_guid s")
    assume "g0 = sp_guid s" "g1 = sp_guid s"
    with ex [of "v + 1" "v + 1"] show ?thesis by (simp add: v ebind_def)
  next
    assume "g0 = sp_guid s" "g1 \<noteq> sp_guid s"
    with ex [of "v + 1" p1] show ?thesis by (simp add: v ebind_def)
  next
    assume "g0 \<noteq> sp_guid s" "g1 = sp_guid s"
    with ex [of p0 "v + 1"] show ?thesis by (simp add: v ebind_def)
  next
    assume "g0 \<noteq> sp_guid s" "g1 \<noteq> sp_guid s"
    with ex [of p0 p1] show ?thesis by (simp add: ebind_def)
  qed
qed

lemmas example_defs = example_transcript_def example_transcript_unique_def
  example_importer_def syncpoints_of_def ptag_def project_ns_def get_def selection_rows_def
  ebind_def py_int_def py_int_str_def strip_def is_space_def int_unsigned_def is_digit_def
  digits_val_def digit_val_def selection_memo_def py_index_def py_slice_def slice_bound_def

lemma coding_rows_positions:
  "coding_rows cs ctx pos0 pos1 memo es = Inr rows
   \<Longrightarrow> list_all (\<lambda>r. ct_pos0 r = pos0 \<and> ct_pos1 r = pos1
                   \<and> ct_seltext r = py_slice (tc_text ctx) pos0 pos1) rows"
proof (induction es arbitrary: rows)
  case Nil
  then show ?case by simp
next
  case (Cons ee es)
  show ?case
  proof (cases "el_tag ee = ptag ''Coding''")
    case True
    with Cons.prems obtain code_ref rest where
      rest: "coding_rows cs ctx pos0 pos1 memo es = Inr rest" and
      rows: "rows = map (\<lambda>c. \<lparr>ct_cid = Some (snd c), ct_fid = tc_fid ctx,
                        ct_seltext = py_slice (tc_text ctx) pos0 pos1, ct_pos0 = pos0,
                        ct_pos1 = pos1, ct_owner = tc_creating_user ctx,
                        ct_date = tc_create_date ctx, ct_memo = memo,
                        ct_avid = Some (tc_av_id ctx)\<rparr>)
                 (filter (\<lambda>c. fst c = get code_ref ''targetGUID'') cs) @ rest"
      by (auto simp: ebind_def split: sum.splits)
    from Cons.IH [OF rest] rows show ?thesis
      by (auto simp: list_all_iff)
  next
    case False
    with Cons show ?thesis by simp
  qed
qed

lemma insert_value_list_appends:
  "insert_value_list vl db = Inr db' \<Longrightarrow> code_text db' = code_text db @ vl"
proof (induction vl arbitrary: db)
  case Nil
  then show ?case by simp
next
  case (Cons v vl)
  from Cons.prems obtain db1 where
    i: "insert_code_text v db = Inr db1" and r: "insert_value_list vl db1 = Inr db'"
    by (auto simp: ebind_def split: sum.splits)
  from i have "code_text db1 = code_text db @ [v]"
    by (auto simp: insert_code_text_def split: if_splits)
  with Cons.IH [OF r] show ?case by simp
qed

lemmas transcript_defs = parse_transcript_with_codings_and_syncpoints_def date_of_def
  replace_t_z_def user_name_def transcript_destination_def transcript_source_path_def
  copyfile_def read_text_def transcript_memo_def insert_source_def py_slice_from_def
  py_index_neg_def next_rowid_def insert_code_text_def same_span_def code_text_after_def
  Let_def

text \<open>
  The ways out of the function before a sync point is read: without a date it raises,
  and with a \<open>plainTextPath\<close> that is not internal it returns with nothing imported.
\<close>

lemma parse_transcript_without_date:
  assumes "get element ''creationDateTime'' = None" "get element ''modifiedDateTime'' = None"
  shows "parse_transcript_with_codings_and_syncpoints av_name av_id element st
           = Inl AttributeError"
  using assms
  by (simp add: parse_transcript_with_codings_and_syncpoints_def date_of_def ebind_def)

lemma parse_transcript_not_internal:
  assumes "get element ''creationDateTime'' = Some d"
    and "get element ''plainTextPath'' = Some plain_text_path"
    and "py_slice plain_text_path 0 11 \<noteq> ''internal://''"
  shows "parse_transcript_with_codings_and_syncpoints av_name av_id element st = Inr st"
  using assms
  by (simp add: parse_transcript_with_codings_and_syncpoints_def date_of_def ebind_def)

lemma parse_transcript_without_file:
  assumes "get element ''creationDateTime'' = Some d"
    and "get element ''plainTextPath'' = Some (''internal://'' @ f)"
    and "get element ''name'' = Some ''talk.txt''"
    and "transcript_source_path (folder_name st) (sources_name st) f = Inr source_path"
    and "source_path \<noteq> project_path st @ ''/documents/talk.txt''"
    and "files st source_path = None"
  shows "parse_transcript_with_codings_and_syncpoints av_name av_id element st
           = Inl FileNotFoundError"
proof -
  have "py_slice (''internal://'' @ f) 0 11 = ''internal://''"
    by (simp add: py_slice_def slice_bound_def)
  moreover have "py_slice_from (''internal://'' @ f) 11 = f"
    by (simp add: py_slice_from_def slice_bound_def)
  moreover have "transcript_destination (project_path st) ''talk.txt'' av_name
      = Inr (project_path st @ ''/documents/talk.txt'')"
    by (simp add: transcript_destination_def py_slice_from_def slice_bound_def)
  ultimately show ?thesis
    using assms
    by (simp add: parse_transcript_with_codings_and_syncpoints_def date_of_def ebind_def
        copyfile_def)
qed

text \<open>
  The rows of a selection whose two GUIDs are in the list: what the loop makes of the
  positions of the last matching entries, and the text of the transcript between them.
\<close>

lemma selection_rows_positions:
  assumes "selection_rows cs ctx sps e = Inr rows"
    and "filter (\<lambda>s. get e ''fromSyncPoint'' = sp_guid s) sps \<noteq> []"
    and "filter (\<lambda>s. get e ''toSyncPoint'' = sp_guid s) sps \<noteq> []"
  shows "list_all (\<lambda>r.
            py_int (sp_pos (last (filter (\<lambda>s. get e ''fromSyncPoint'' = sp_guid s) sps)))
              = Inr (ct_pos0 r - 1)
          \<and> py_int (sp_pos (last (filter (\<lambda>s. get e ''toSyncPoint'' = sp_guid s) sps)))
              = Inr (ct_pos1 r - 1)
          \<and> ct_seltext r = py_slice (tc_text ctx) (ct_pos0 r) (ct_pos1 r)) rows"
proof -
  let ?from = "filter (\<lambda>s. get e ''fromSyncPoint'' = sp_guid s) sps"
  let ?to = "filter (\<lambda>s. get e ''toSyncPoint'' = sp_guid s) sps"
  from assms(1) obtain pos0 pos1 where
    r: "resolve_syncpoints sps (get e ''fromSyncPoint'') (get e ''toSyncPoint'') 0 0
          = Inr (pos0, pos1)" and
    c: "coding_rows cs ctx pos0 pos1 (selection_memo e) (el_children e) = Inr rows"
    by (auto simp: selection_rows_def ebind_def split: sum.splits)
  from resolve_syncpoints_start [OF r] assms(2)
  have p0: "py_int (sp_pos (last ?from)) = Inr (pos0 - 1)" by simp
  from resolve_syncpoints_end [OF r] assms(3)
  have p1: "py_int (sp_pos (last ?to)) = Inr (pos1 - 1)" by simp
  from coding_rows_positions [OF c] p0 p1 show ?thesis
    by (simp add: list_all_iff)
qed

lemma resolve_syncpoints_last_alone:
  assumes r: "resolve_syncpoints sps g0 g1 0 0 = Inr (pos0, pos1)"
    and ne: "filter (\<lambda>s. g1 = sp_guid s) sps \<noteq> []"
  shows "\<exists>q0. resolve_syncpoints [last (filter (\<lambda>s. g1 = sp_guid s) sps)] g0 g1 0 0
           = Inr (q0, pos1)"
proof -
  let ?l = "last (filter (\<lambda>s. g1 = sp_guid s) sps)"
  from ne have "?l \<in> set (filter (\<lambda>s. g1 = sp_guid s) sps)"
    by (rule last_in_set)
  then have g: "g1 = sp_guid ?l" by simp
  from resolve_syncpoints_end [OF r] ne
  have p: "py_int (sp_pos ?l) = Inr (pos1 - 1)" by simp
  show ?thesis
  proof (cases "g0 = sp_guid ?l")
    case True
    with g p have "resolve_syncpoints [?l] g0 g1 0 0 = Inr (pos1, pos1)"
      by (simp add: ebind_def)
    then show ?thesis by blast
  next
    case False
    with g p have "resolve_syncpoints [?l] g0 g1 0 0 = Inr (0, pos1)"
      by (simp add: ebind_def)
    then show ?thesis by blast
  qed
qed

text \<open>
  C1 (amended). The loop over the sync points does not stop at a match, so when the
  \<open>toSyncPoint\<close> GUID is the GUID of several entries the last of them decides: whenever
  the loop returns, the end position it returns is the one it returns on the last
  matching entry alone, and every row of the selection ends there. The loop returns
  whenever every position is an integer.
\<close>

theorem to_syncpoint_last_match:
  "(list_all (\<lambda>s. \<not> isl (py_int (sp_pos s))) sps
      \<longrightarrow> (\<exists>q0 q1. resolve_syncpoints sps g0 g1 0 0 = Inr (q0, q1)))
   \<and> (resolve_syncpoints sps g0 g1 0 0 = Inr (pos0, pos1)
        \<and> filter (\<lambda>s. g1 = sp_guid s) sps \<noteq> []
      \<longrightarrow> (\<exists>q0. resolve_syncpoints [last (filter (\<lambda>s. g1 = sp_guid s) sps)] g0 g1 0 0
                 = Inr (q0, pos1)))
   \<and> (selection_rows cs ctx sps e = Inr rows
        \<and> filter (\<lambda>s. get e ''toSyncPoint'' = sp_guid s) sps \<noteq> []
      \<longrightarrow> (\<exists>q0 q1. resolve_syncpoints
                      [last (filter (\<lambda>s. get e ''toSyncPoint'' = sp_guid s) sps)]
                      (get e ''fromSyncPoint'') (get e ''toSyncPoint'') 0 0 = Inr (q0, q1)
                  \<and> list_all (\<lambda>r. ct_pos1 r = q1) rows))"
proof (intro conjI impI)
  assume "list_all (\<lambda>s. \<not> isl (py_int (sp_pos s))) sps"
  then show "\<exists>q0 q1. resolve_syncpoints sps g0 g1 0 0 = Inr (q0, q1)"
    by (rule resolve_syncpoints_returns)
next
  assume "resolve_syncpoints sps g0 g1 0 0 = Inr (pos0, pos1)
        \<and> filter (\<lambda>s. g1 = sp_guid s) sps \<noteq> []"
  then show "\<exists>q0. resolve_syncpoints [last (filter (\<lambda>s. g1 = sp_guid s) sps)] g0 g1 0 0
                 = Inr (q0, pos1)"
    using resolve_syncpoints_last_alone by blast
next
  let ?g0 = "get e ''fromSyncPoint''" and ?g1 = "get e ''toSyncPoint''"
  assume a: "selection_rows cs ctx sps e = Inr rows
        \<and> filter (\<lambda>s. ?g1 = sp_guid s) sps \<noteq> []"
  then obtain p0 p1 where
    r: "resolve_syncpoints sps ?g0 ?g1 0 0 = Inr (p0, p1)" and
    c: "coding_rows cs ctx p0 p1 (selection_memo e) (el_children e) = Inr rows"
    by (auto simp: selection_rows_def ebind_def split: sum.splits)
  from a have ne: "filter (\<lambda>s. ?g1 = sp_guid s) sps \<noteq> []" by simp
  from resolve_syncpoints_last_alone [OF r ne] obtain q0 where
    q: "resolve_syncpoints [last (filter (\<lambda>s. ?g1 = sp_guid s) sps)] ?g0 ?g1 0 0 = Inr (q0, p1)"
    by blast
  from coding_rows_positions [OF c] have "list_all (\<lambda>r. ct_pos1 r = p1) rows"
    by (simp add: list_all_iff)
  with q show "\<exists>q0 q1. resolve_syncpoints [last (filter (\<lambda>s. ?g1 = sp_guid s) sps)] ?g0 ?g1 0 0
                    = Inr (q0, q1)
                  \<and> list_all (\<lambda>r. ct_pos1 r = q1) rows"
    by blast
qed

text \<open>
  In the example the GUID \<open>sp-b\<close> has the entries at 9 and at 12, and the end the loop
  returns is the end it returns on the entry at 12 alone.
\<close>

theorem to_syncpoint_last_match_witness:
  "list_all (\<lambda>s. \<not> isl (py_int (sp_pos s))) (syncpoints_of example_transcript)
   \<and> resolve_syncpoints (syncpoints_of example_transcript) (Some ''sp-a'') (Some ''sp-b'') 0 0
       = Inr (6, 13)
   \<and> filter (\<lambda>s. Some ''sp-b'' = sp_guid s) (syncpoints_of example_transcript) \<noteq> []
   \<and> last (filter (\<lambda>s. Some ''sp-b'' = sp_guid s) (syncpoints_of example_transcript))
       = \<lparr>sp_guid = Some ''sp-b'', sp_pos = Some ''12'', sp_timestamp = Some ''200''\<rparr>
   \<and> (\<exists>q0. resolve_syncpoints
              [\<lparr>sp_guid = Some ''sp-b'', sp_pos = Some ''12'', sp_timestamp = Some ''200''\<rparr>]
              (Some ''sp-a'') (Some ''sp-b'') 0 0 = Inr (q0, 13))"
proof -
  have a: "list_all (\<lambda>s. \<not> isl (py_int (sp_pos s))) (syncpoints_of example_transcript)"
    by (simp add: example_defs)
  have b: "resolve_syncpoints (syncpoints_of example_transcript) (Some ''sp-a'') (Some ''sp-b'') 0 0
       = Inr (6, 13)"
    by (simp add: example_defs)
  have c: "filter (\<lambda>s. Some ''sp-b'' = sp_guid s) (syncpoints_of example_transcript) \<noteq> []"
    by (simp add: example_defs)
  have d: "last (filter (\<lambda>s. Some ''sp-b'' = sp_guid s) (syncpoints_of example_transcript))
       = \<lparr>sp_guid = Some ''sp-b'', sp_pos = Some ''12'', sp_timestamp = Some ''200''\<rparr>"
    by (simp add: example_defs)
  from to_syncpoint_last_match [of "syncpoints_of example_transcript" "Some ''sp-a''"
      "Some ''sp-b''" 6 13] b c
  have "\<exists>q0. resolve_syncpoints
              [last (filter (\<lambda>s. Some ''sp-b'' = sp_guid s) (syncpoints_of example_transcript))]
              (Some ''sp-a'') (Some ''sp-b'') 0 0 = Inr (q0, 13)"
    by blast
  then have "\<exists>q0. resolve_syncpoints
              [\<lparr>sp_guid = Some ''sp-b'', sp_pos = Some ''12'', sp_timestamp = Some ''200''\<rparr>]
              (Some ''sp-a'') (Some ''sp-b'') 0 0 = Inr (q0, 13)"
    by (simp only: d)
  with a b c d show ?thesis by blast
qed

text \<open>
  C1 as stated fails: \<open>sp-b\<close> is the GUID of the entries at the positions 9 and 12, in
  that order. The import of the transcript inserts one span, and it ends at 13, which
  comes from the later entry: from the list up to the earlier entry the loop returns the
  end 10.
\<close>

theorem to_syncpoint_first_match_counterexample:
  "code_text_after (parse_transcript_with_codings_and_syncpoints ''talk.mp4'' 11
       example_transcript example_importer)
     = Inr [\<lparr>ct_cid = Some 7, ct_fid = 1, ct_seltext = ''world. '', ct_pos0 = 6, ct_pos1 = 13,
             ct_owner = Some ''ann'', ct_date = ''2024-02-02 10:00:00'', ct_memo = [],
             ct_avid = Some 11\<rparr>]
   \<and> map sp_pos (filter (\<lambda>s. sp_guid s = Some ''sp-b'') (syncpoints_of example_transcript))
     = [Some ''9'', Some ''12'']
   \<and> resolve_syncpoints (take 2 (syncpoints_of example_transcript))
        (Some ''sp-a'') (Some ''sp-b'') 0 0 = Inr (6, 10)"
  by (simp add: example_defs transcript_defs)

text \<open>
  C2. The code does not do what the claim says: the loop adds 1 to the position stored
  for each of the two sync points. In the example the positions stored for \<open>sp-0\<close> and
  \<open>sp-1\<close> are 0 and 11, the range of \<open>Hello world\<close>, and the span inserted starts at 1
  and ends at 12, with the text \<open>ello world.\<close>.
\<close>

theorem transcript_span_shifted_by_one:
  "map (\<lambda>s. (sp_guid s, sp_pos s)) (syncpoints_of example_transcript_unique)
     = [(Some ''sp-0'', Some ''0''), (Some ''sp-1'', Some ''11'')]
   \<and> code_text_after (parse_transcript_with_codings_and_syncpoints ''talk.mp4'' 11
         example_transcript_unique example_importer)
     = Inr [\<lparr>ct_cid = Some 7, ct_fid = 1, ct_seltext = ''ello world.'', ct_pos0 = 1,
             ct_pos1 = 12, ct_owner = Some ''ann'', ct_date = ''2024-02-02 10:00:00'',
             ct_memo = [], ct_avid = Some 11\<rparr>]
   \<and> py_slice ''Hello world. Goodbye.'' 0 11 = ''Hello world''"
  by (simp add: example_defs transcript_defs)

section \<open>Properties of dangling references\<close>

lemma lookup_last_None: "lookup_last xs g = None \<longleftrightarrow> g \<notin> fst ` set xs"
proof -
  have "foldl (\<lambda>r x. if fst x = g then Some (snd x) else r) r0 xs = None
        \<longleftrightarrow> r0 = None \<and> g \<notin> fst ` set xs" for r0
    by (induction xs arbitrary: r0) auto
  then show ?thesis by (simp add: lookup_last_def)
qed

lemma picture_codings_unresolved:
  assumes "picture_codings row cs es db = Inr db'"
    and "list_all (\<lambda>e. el_tag e = ptag ''Coding'' \<longrightarrow>
            (case el_children e of [] \<Rightarrow> True
             | r # rs \<Rightarrow> get r ''targetGUID'' \<notin> fst ` set cs)) es"
  shows "code_image db' = code_image db
           @ replicate (length (filter (\<lambda>e. el_tag e = ptag ''Coding'') es)) (row\<lparr>ci_cid := None\<rparr>)"
  using assms
proof (induction es arbitrary: db)
  case Nil
  then show ?case by simp
next
  case (Cons e es)
  from Cons.prems(2) have rest: "list_all (\<lambda>e. el_tag e = ptag ''Coding'' \<longrightarrow>
            (case el_children e of [] \<Rightarrow> True
             | r # rs \<Rightarrow> get r ''targetGUID'' \<notin> fst ` set cs)) es"
    by simp
  show ?case
  proof (cases "el_tag e = ptag ''Coding''")
    case False
    with Cons.prems(1) have "picture_codings row cs es db = Inr db'" by simp
    from Cons.IH [OF this rest] False show ?thesis by simp
  next
    case True
    with Cons.prems(1) obtain code_ref where
      cr: "py_index (el_children e) 0 = Inr code_ref" and
      r: "picture_codings row cs es
            (insert_code_image (row\<lparr>ci_cid := lookup_last cs (get code_ref ''targetGUID'')\<rparr>) db)
          = Inr db'"
      by (auto simp: ebind_def Let_def split: sum.splits)
    from cr obtain rs where "el_children e = code_ref # rs"
      by (cases "el_children e") (auto simp: py_index_def)
    with Cons.prems(2) True have "get code_ref ''targetGUID'' \<notin> fst ` set cs" by simp
    then have "lookup_last cs (get code_ref ''targetGUID'') = None"
      by (simp add: lookup_last_None)
    with r have r': "picture_codings row cs es (insert_code_image (row\<lparr>ci_cid := None\<rparr>) db) = Inr db'"
      by simp
    from Cons.IH [OF r' rest] True show ?thesis
      by (simp add: insert_code_image_def replicate_append_same [symmetric] del: replicate_append_same)
  qed
qed

lemma variable_name_unresolved:
  "list_all (\<lambda>e. el_tag e = ptag ''VariableRef'' \<longrightarrow> get e ''targetGUID'' \<notin> fst ` set vs) es
   \<Longrightarrow> foldl (\<lambda>var_name var_el.
              if el_tag var_el = ptag ''VariableRef''
              then (case find_variable vs (get var_el ''targetGUID'') of
                      None \<Rightarrow> var_name | Some n \<Rightarrow> n)
              else var_name) n0 es = n0"
proof (induction es)
  case Nil
  show ?case by simp
next
  case (Cons e es)
  have "find_variable vs g = None" if "g \<notin> fst ` set vs" for g
    using that by (force simp: find_variable_def find_None_iff)
  with Cons show ?case by simp
qed

text \<open>
  C8 (amended). What the import does with a GUID that resolves to nothing depends on
  the element. A Note whose source GUID no imported source has is skipped entirely:
  \<open>insert_annotation\<close> returns the state unchanged and raises nothing. A Coding of a
  picture selection whose CodeRef no code has is not skipped: when the selection is
  loaded, one row per Coding has been inserted, with no code id. A VariableValue of a
  source whose VariableRef no variable has is not skipped either: its row is inserted
  with the empty string for the variable's name.
\<close>

theorem dangling_reference_handling:
  "(source_guid \<notin> fst ` set (sources st)
      \<longrightarrow> insert_annotation now_date source_guid note st = Inr st)
   \<and> (load_codings_for_picture src_id selection st = Inr st'
        \<and> list_all (\<lambda>e. el_tag e = ptag ''Coding'' \<longrightarrow>
              (case el_children e of [] \<Rightarrow> True
               | r # rs \<Rightarrow> get r ''targetGUID'' \<notin> fst ` set (codes st))) (el_children selection)
      \<longrightarrow> (\<exists>rows. code_image (conn st') = code_image (conn st) @ rows
             \<and> length rows
                 = length (filter (\<lambda>e. el_tag e = ptag ''Coding'') (el_children selection))
             \<and> list_all (\<lambda>r. ci_cid r = None) rows))
   \<and> (list_all (\<lambda>e. el_tag e = ptag ''VariableRef'' \<longrightarrow>
              get e ''targetGUID'' \<notin> fst ` set (variables st)) (el_children variable_value)
      \<longrightarrow> attribute (conn (parse_variable_value now_date variable_value src_id user st))
           = attribute (conn st)
             @ [\<lparr>at_name = Some [], at_attr_type = ''file'',
                 at_value = Some (variable_value_of variable_value), at_id = Some src_id,
                 at_date = now_date, at_owner = user\<rparr>])"
proof (intro conjI impI)
  assume "source_guid \<notin> fst ` set (sources st)"
  then have "lookup_last (sources st) source_guid = None"
    by (simp add: lookup_last_None)
  then show "insert_annotation now_date source_guid note st = Inr st"
    by (simp add: insert_annotation_def Let_def)
next
  assume a: "load_codings_for_picture src_id selection st = Inr st'
        \<and> list_all (\<lambda>e. el_tag e = ptag ''Coding'' \<longrightarrow>
              (case el_children e of [] \<Rightarrow> True
               | r # rs \<Rightarrow> get r ''targetGUID'' \<notin> fst ` set (codes st))) (el_children selection)"
  then obtain row db where
    p: "picture_codings row (codes st) (el_children selection) (conn st) = Inr db" and
    s: "st' = st\<lparr>conn := db\<rparr>"
    by (auto simp: load_codings_for_picture_def ebind_def Let_def split: sum.splits)
  from picture_codings_unresolved [OF p] a s
  have "code_image (conn st') = code_image (conn st)
           @ replicate (length (filter (\<lambda>e. el_tag e = ptag ''Coding'') (el_children selection)))
               (row\<lparr>ci_cid := None\<rparr>)"
    by simp
  then show "\<exists>rows. code_image (conn st') = code_image (conn st) @ rows
             \<and> length rows
                 = length (filter (\<lambda>e. el_tag e = ptag ''Coding'') (el_children selection))
             \<and> list_all (\<lambda>r. ci_cid r = None) rows"
    by (intro exI [of _ "replicate (length (filter (\<lambda>e. el_tag e = ptag ''Coding'')
          (el_children selection))) (row\<lparr>ci_cid := None\<rparr>)"]) (simp add: list_all_iff)
next
  assume "list_all (\<lambda>e. el_tag e = ptag ''VariableRef'' \<longrightarrow>
              get e ''targetGUID'' \<notin> fst ` set (variables st)) (el_children variable_value)"
  then have "variable_name_of (variables st) variable_value = Some []"
    unfolding variable_name_of_def by (rule variable_name_unresolved)
  then show "attribute (conn (parse_variable_value now_date variable_value src_id user st))
           = attribute (conn st)
             @ [\<lparr>at_name = Some [], at_attr_type = ''file'',
                 at_value = Some (variable_value_of variable_value), at_id = Some src_id,
                 at_date = now_date, at_owner = user\<rparr>]"
    by (simp add: parse_variable_value_def insert_attribute_def)
qed

lemmas import_example_defs = example_picture_selection_def example_note_def
  example_variable_value_def example_importer_def ptag_def project_ns_def get_def ebind_def
  py_int_def py_int_str_def strip_def is_space_def int_unsigned_def is_digit_def digits_val_def
  digit_val_def py_index_def

text \<open>The example picture selection, loaded for the source 3.\<close>

lemma example_picture_loaded:
  "load_codings_for_picture 3 example_picture_selection example_importer
     = Inr (example_importer\<lparr>conn := (conn example_importer)\<lparr>code_image :=
         [\<lparr>ci_id = 3, ci_x1 = 783, ci_y1 = 1238, ci_width = 389, ci_height = 550,
           ci_cid = None, ci_memo = Some ''some wording.'', ci_date = ''2019-03-09 23:19:07'',
           ci_owner = Some ''ann''\<rparr>]\<rparr>\<rparr>)"
  by (simp add: import_example_defs load_codings_for_picture_def date_of_def replace_t_z_def
      user_name_def lookup_last_def insert_code_image_def Let_def)

theorem dangling_reference_handling_witness:
  "Some ''s-9'' \<notin> fst ` set (sources example_importer)
   \<and> insert_annotation ''2024-02-02 10:00:00'' (Some ''s-9'') example_note example_importer
       = Inr example_importer
   \<and> list_all (\<lambda>e. el_tag e = ptag ''VariableRef'' \<longrightarrow>
              get e ''targetGUID'' \<notin> fst ` set (variables example_importer))
        (el_children example_variable_value)
   \<and> attribute (conn (parse_variable_value ''2024-02-02 10:00:00'' example_variable_value 3
        (Some ''ann'') example_importer))
      = [\<lparr>at_name = Some [], at_attr_type = ''file'', at_value = Some ''20-29'',
          at_id = Some 3, at_date = ''2024-02-02 10:00:00'', at_owner = Some ''ann''\<rparr>]
   \<and> list_all (\<lambda>e. el_tag e = ptag ''Coding'' \<longrightarrow>
              (case el_children e of [] \<Rightarrow> True
               | r # rs \<Rightarrow> get r ''targetGUID'' \<notin> fst ` set (codes example_importer)))
        (el_children example_picture_selection)
   \<and> (\<exists>st' rows. load_codings_for_picture 3 example_picture_selection example_importer = Inr st'
        \<and> code_image (conn st') = code_image (conn example_importer) @ rows
        \<and> length rows = 1 \<and> list_all (\<lambda>r. ci_cid r = None) rows)"
proof -
  have a: "Some ''s-9'' \<notin> fst ` set (sources example_importer)"
    by (simp add: example_importer_def)
  have b: "list_all (\<lambda>e. el_tag e = ptag ''VariableRef'' \<longrightarrow>
              get e ''targetGUID'' \<notin> fst ` set (variables example_importer))
        (el_children example_variable_value)"
    by (simp add: import_example_defs)
  note T = dangling_reference_handling [of "Some ''s-9''" example_importer
      "''2024-02-02 10:00:00''" example_note 3 example_picture_selection example_importer
      example_variable_value "Some ''ann''"]
  from T a have c: "insert_annotation ''2024-02-02 10:00:00'' (Some ''s-9'') example_note
      example_importer = Inr example_importer"
    by blast
  from T b have "attribute (conn (parse_variable_value ''2024-02-02 10:00:00''
        example_variable_value 3 (Some ''ann'') example_importer))
      = attribute (conn example_importer)
        @ [\<lparr>at_name = Some [], at_attr_type = ''file'',
            at_value = Some (variable_value_of example_variable_value), at_id = Some 3,
            at_date = ''2024-02-02 10:00:00'', at_owner = Some ''ann''\<rparr>]"
    by blast
  moreover have "variable_value_of example_variable_value = ''20-29''"
    by (simp add: variable_value_of_def is_value_tag_def import_example_defs)
  moreover have "attribute (conn example_importer) = []"
    by (simp add: example_importer_def)
  ultimately have d: "attribute (conn (parse_variable_value ''2024-02-02 10:00:00''
        example_variable_value 3 (Some ''ann'') example_importer))
      = [\<lparr>at_name = Some [], at_attr_type = ''file'', at_value = Some ''20-29'',
          at_id = Some 3, at_date = ''2024-02-02 10:00:00'', at_owner = Some ''ann''\<rparr>]"
    by simp
  have e: "list_all (\<lambda>e. el_tag e = ptag ''Coding'' \<longrightarrow>
              (case el_children e of [] \<Rightarrow> True
               | r # rs \<Rightarrow> get r ''targetGUID'' \<notin> fst ` set (codes example_importer)))
        (el_children example_picture_selection)"
    by (simp add: import_example_defs)
  have n: "length (filter (\<lambda>e. el_tag e = ptag ''Coding'') (el_children example_picture_selection)) = 1"
    by (simp add: import_example_defs)
  from dangling_reference_handling [of "Some ''s-9''" example_importer
      "''2024-02-02 10:00:00''" example_note 3 example_picture_selection
      "example_importer\<lparr>conn := (conn example_importer)\<lparr>code_image :=
         [\<lparr>ci_id = 3, ci_x1 = 783, ci_y1 = 1238, ci_width = 389, ci_height = 550,
           ci_cid = None, ci_memo = Some ''some wording.'', ci_date = ''2019-03-09 23:19:07'',
           ci_owner = Some ''ann''\<rparr>]\<rparr>\<rparr>"
      example_variable_value "Some ''ann''"] example_picture_loaded e n
  have f: "\<exists>st' rows. load_codings_for_picture 3 example_picture_selection example_importer = Inr st'
        \<and> code_image (conn st') = code_image (conn example_importer) @ rows
        \<and> length rows = 1 \<and> list_all (\<lambda>r. ci_cid r = None) rows"
    by (metis (no_types, lifting))
  from a b c d e f show ?thesis by blast
qed

text \<open>
  C8 as stated fails: no code has the GUID \<open>c-unknown\<close>, and loading the picture
  selection whose Coding refers to it inserts a row into the empty table
  \<open>code_image\<close>.
\<close>

theorem picture_coding_dangling_counterexample:
  "Some ''c-unknown'' \<notin> fst ` set (codes example_importer)
   \<and> load_codings_for_picture 3 example_picture_selection example_importer
     = Inr (example_importer\<lparr>conn := (conn example_importer)\<lparr>code_image :=
         [\<lparr>ci_id = 3, ci_x1 = 783, ci_y1 = 1238, ci_width = 389, ci_height = 550,
           ci_cid = None, ci_memo = Some ''some wording.'', ci_date = ''2019-03-09 23:19:07'',
           ci_owner = Some ''ann''\<rparr>]\<rparr>\<rparr>)
   \<and> code_image (conn example_importer) = []"
  using example_picture_loaded by (simp add: example_importer_def)

section \<open>Properties of the import of file variables\<close>

lemma fill_for_source_named:
  assumes "list_all (\<lambda>v. fv_name v \<noteq> None) fvs"
  shows "\<exists>db'. fill_for_source now_date owner s fvs db = Inr db'
           \<and> attribute db' = attribute db
                @ map (file_row now_date owner (snd s)) (filter (\<lambda>v. fv_file_guid v = fst s) fvs)
           \<and> cases db' = cases db"
  using assms
proof (induction fvs arbitrary: db)
  case Nil
  show ?case by simp
next
  case (Cons v fvs)
  from Cons.prems obtain n where n: "fv_name v = Some n" and
    rest: "list_all (\<lambda>v. fv_name v \<noteq> None) fvs"
    by auto
  show ?case
  proof (cases "fv_file_guid v = fst s")
    case False
    with Cons.IH [OF rest, of db] show ?thesis by simp
  next
    case True
    let ?db1 = "insert_attribute
                  \<lparr>at_name = n, at_attr_type = ''file'', at_value = fv_value v,
                   at_id = Some (snd s), at_date = now_date, at_owner = Some owner\<rparr> db"
    from Cons.IH [OF rest, of ?db1] obtain db' where
      "fill_for_source now_date owner s fvs ?db1 = Inr db'"
      "attribute db' = attribute ?db1
                @ map (file_row now_date owner (snd s)) (filter (\<lambda>v. fv_file_guid v = fst s) fvs)"
      "cases db' = cases ?db1"
      by blast
    with True n show ?thesis
      by (simp add: insert_attribute_def file_row_def)
  qed
qed

lemma fill_sources_named:
  assumes "list_all (\<lambda>v. fv_name v \<noteq> None) fvs"
  shows "\<exists>db'. fill_sources now_date owner ss fvs db = Inr db'
           \<and> attribute db' = attribute db
                @ concat (map (\<lambda>s. map (file_row now_date owner (snd s))
                                      (filter (\<lambda>v. fv_file_guid v = fst s) fvs)) ss)
           \<and> cases db' = cases db"
proof (induction ss arbitrary: db)
  case Nil
  show ?case by simp
next
  case (Cons s ss)
  from fill_for_source_named [OF assms, of now_date owner s db] obtain db1 where
    1: "fill_for_source now_date owner s fvs db = Inr db1"
       "attribute db1 = attribute db
                @ map (file_row now_date owner (snd s)) (filter (\<lambda>v. fv_file_guid v = fst s) fvs)"
       "cases db1 = cases db"
    by blast
  from Cons.IH [of db1] obtain db' where
    2: "fill_sources now_date owner ss fvs db1 = Inr db'"
       "attribute db' = attribute db1
                @ concat (map (\<lambda>s. map (file_row now_date owner (snd s))
                                      (filter (\<lambda>v. fv_file_guid v = fst s) fvs)) ss)"
       "cases db' = cases db1"
    by blast
  from 1 2 show ?case by (simp add: ebind_def)
qed

lemma concat_single_match:
  assumes "filter (\<lambda>s. fst s = g) ss = [(g, i)]"
    and "\<And>s. fst s \<noteq> g \<Longrightarrow> f s = []"
    and "\<And>s. fst s = g \<Longrightarrow> f s = h (snd s)"
  shows "concat (map f ss) = h i"
  using assms(1)
proof (induction ss)
  case Nil
  then show ?case by simp
next
  case (Cons s ss)
  show ?case
  proof (cases "fst s = g")
    case True
    with Cons.prems have s: "s = (g, i)" and none: "filter (\<lambda>s. fst s = g) ss = []"
      by simp_all
    from none have "\<forall>x\<in>set ss. fst x \<noteq> g"
      by (simp add: filter_empty_conv)
    then have "concat (map f ss) = []"
      using assms(2) by simp
    with True s assms(3) [of s] show ?thesis by simp
  next
    case False
    with Cons show ?thesis by (simp add: assms(2))
  qed
qed

text \<open>
  The import of a file-variable Case when both of its variables were declared: a Case without a
  name, with one SourceRef to the one imported source with that GUID and two
  VariableValue children, gives two rows of type \<open>file\<close> for the id of the source, and
  \<open>parse_cases\<close> passes the Case over.
\<close>

lemma file_case_two_rows:
  assumes nm: "get e ''name'' = None"
    and ref: "filter (\<lambda>el. el_tag el = ptag ''SourceRef'') (el_children e) = [r]"
      "get r ''targetGUID'' = Some g"
    and vals: "filter (\<lambda>el. el_tag el = ptag ''VariableValue'') (el_children e) = [v1, v2]"
    and res: "find_variable (variables st) (var_guid_of v1) = Some n1"
      "find_variable (variables st) (var_guid_of v2) = Some n2"
    and src: "filter (\<lambda>s. fst s = Some g) (sources st) = [(Some g, i)]"
    and fresh: "file_vars st = []"
  shows "\<exists>st'. fill_file_attribute_values now_date (parse_case_for_file_variables e st) = Inr st'
           \<and> attribute (conn st') = attribute (conn st)
                @ [\<lparr>at_name = n1, at_attr_type = ''file'', at_value = value_of v1,
                    at_id = Some i, at_date = now_date, at_owner = Some (codername st)\<rparr>,
                   \<lparr>at_name = n2, at_attr_type = ''file'', at_value = value_of v2,
                    at_id = Some i, at_date = now_date, at_owner = Some (codername st)\<rparr>]
           \<and> cases (conn st') = cases (conn st)
           \<and> parse_case refuses now_date e (c, st') = (c, st')"
proof -
  let ?fvs = "[attr_val_of (variables st) (Some g) v1, attr_val_of (variables st) (Some g) v2]"
  let ?st1 = "st\<lparr>file_vars := ?fvs\<rparr>"
  have p: "parse_case_for_file_variables e st = ?st1"
    using nm ref vals fresh by (simp add: parse_case_for_file_variables_def Let_def)
  have named: "list_all (\<lambda>v. fv_name v \<noteq> None) ?fvs"
    using res by (simp add: attr_val_of_def)
  from fill_sources_named [OF named, of now_date "codername st" "sources st" "conn st"]
  obtain db' where
    f: "fill_sources now_date (codername st) (sources st) ?fvs (conn st) = Inr db'" and
    a: "attribute db' = attribute (conn st)
                @ concat (map (\<lambda>s. map (file_row now_date (codername st) (snd s))
                                      (filter (\<lambda>v. fv_file_guid v = fst s) ?fvs)) (sources st))" and
    c: "cases db' = cases (conn st)"
    by blast
  have "concat (map (\<lambda>s. map (file_row now_date (codername st) (snd s))
                        (filter (\<lambda>v. fv_file_guid v = fst s) ?fvs)) (sources st))
        = map (file_row now_date (codername st) i) ?fvs"
    by (rule concat_single_match [OF src]) (auto simp: attr_val_of_def)
  with a res have a': "attribute db' = attribute (conn st)
                @ [\<lparr>at_name = n1, at_attr_type = ''file'', at_value = value_of v1,
                    at_id = Some i, at_date = now_date, at_owner = Some (codername st)\<rparr>,
                   \<lparr>at_name = n2, at_attr_type = ''file'', at_value = value_of v2,
                    at_id = Some i, at_date = now_date, at_owner = Some (codername st)\<rparr>]"
    by (simp add: file_row_def attr_val_of_def)
  have fl: "fill_file_attribute_values now_date ?st1 = Inr (?st1\<lparr>conn := db'\<rparr>)"
    using f by (simp add: fill_file_attribute_values_def ebind_def)
  have pc: "parse_case refuses now_date e (c, ?st1\<lparr>conn := db'\<rparr>) = (c, ?st1\<lparr>conn := db'\<rparr>)"
    using nm by (simp add: parse_case_def)
  show ?thesis
    by (rule exI [of _ "?st1\<lparr>conn := db'\<rparr>"]) (use p fl a' c pc in simp)
qed

lemmas case_example_defs = example_file_case_def example_project_def example_importer_def
  ptag_def project_ns_def get_def parse_cases_for_file_variables_def
  parse_case_for_file_variables_def attr_val_of_def var_guid_of_def value_of_def
  find_variable_def is_value_tag_def Let_def

text \<open>
  C6. The code does not do what the claim says when a VariableValue of the Case refers
  to a variable GUID that was not declared: the entry of \<open>file_vars\<close> then has no key
  \<open>name\<close>, and \<open>fill_file_attribute_values\<close> raises KeyError instead of inserting the
  two rows. In the example the Case has no name, its one SourceRef is the GUID of the
  imported source 3, and it has two VariableValue children.
\<close>

theorem file_case_undeclared_variable_raises:
  "get example_file_case ''name'' = None
   \<and> map (\<lambda>el. get el ''targetGUID'')
        (filter (\<lambda>el. el_tag el = ptag ''SourceRef'') (el_children example_file_case))
      = [Some ''s-1'']
   \<and> filter (\<lambda>s. fst s = Some ''s-1'') (sources example_importer) = [(Some ''s-1'', 3)]
   \<and> length (filter (\<lambda>el. el_tag el = ptag ''VariableValue'') (el_children example_file_case)) = 2
   \<and> map fv_name (file_vars (parse_cases_for_file_variables example_project example_importer))
      = [Some (Some ''Age''), None]
   \<and> fill_file_attribute_values ''2024-02-02 10:00:00''
        (parse_cases_for_file_variables example_project example_importer) = Inl KeyError"
  by (simp add: case_example_defs fill_file_attribute_values_def ebind_def insert_attribute_def)

section \<open>Properties of the codebook export\<close>

lemma opened_append [simp]: "opened (ps @ qs) = opened ps @ opened qs"
  by (induction ps rule: opened.induct) simp_all

lemma code_pieces_append [simp]: "code_pieces (ps @ qs) = code_pieces ps @ code_pieces qs"
  by (induction ps rule: code_pieces.induct) simp_all

lemma opened_codes_in [simp]: "opened (codes_in cs k) = []"
  by (simp add: codes_in_def) (induction cs; simp)

lemma code_pieces_codes_in [simp]:
  "code_pieces (codes_in cs k) = filter (\<lambda>co. co_catid co = Some k) cs"
  by (simp add: codes_in_def) (induction cs; simp)

lemma opened_description [simp]: "opened (description_pieces c) = []"
  by (simp add: description_pieces_def Let_def)

lemma code_pieces_description [simp]: "code_pieces (description_pieces c) = []"
  by (simp add: description_pieces_def Let_def)

lemma unex_size: "unex cats = size (to_examine cats)"
  unfolding unex_def to_examine_def by (simp only: size_mset length_map)

lemma frame_refl: "frame cats cats"
  by (simp add: frame_def)

lemma frame_trans:
  assumes "frame a b" "frame b c"
  shows "frame a c"
  unfolding frame_def
proof (intro conjI allI impI)
  show "length c = length a" using assms by (simp add: frame_def)
next
  fix i assume i: "i < length a"
  from assms(1) i have 1: "b ! i = a ! i
      \<or> (cg_examine (a ! i) \<and> b ! i = (a ! i)\<lparr>cg_examine := False\<rparr>)"
    by (simp add: frame_def)
  from assms i have 2: "c ! i = b ! i
      \<or> (cg_examine (b ! i) \<and> c ! i = (b ! i)\<lparr>cg_examine := False\<rparr>)"
    by (simp add: frame_def)
  from 1 2 show "c ! i = a ! i
      \<or> (cg_examine (a ! i) \<and> c ! i = (a ! i)\<lparr>cg_examine := False\<rparr>)"
    by auto
qed

lemma frame_flip:
  assumes "i < length cats" "cg_examine (cats ! i)"
  shows "frame cats (cats[i := (cats ! i)\<lparr>cg_examine := False\<rparr>])"
  using assms by (auto simp: frame_def nth_list_update)

lemma to_examine_flip:
  assumes "i < length cats" "cg_examine (cats ! i)"
  shows "add_mset (cg_catid (cats ! i))
           (to_examine (cats[i := (cats ! i)\<lparr>cg_examine := False\<rparr>])) = to_examine cats"
proof -
  have split: "cats = take i cats @ cats ! i # drop (Suc i) cats"
    using assms(1) by (simp add: id_take_nth_drop)
  have upd: "cats[i := (cats ! i)\<lparr>cg_examine := False\<rparr>]
        = take i cats @ (cats ! i)\<lparr>cg_examine := False\<rparr> # drop (Suc i) cats"
    using assms(1) by (simp add: upd_conv_take_nth_drop)
  have "to_examine cats = to_examine (take i cats) + {#cg_catid (cats ! i)#}
          + to_examine (drop (Suc i) cats)"
    by (subst split) (simp add: to_examine_def assms(2))
  moreover have "to_examine (cats[i := (cats ! i)\<lparr>cg_examine := False\<rparr>])
        = to_examine (take i cats) + to_examine (drop (Suc i) cats)"
    by (simp add: upd to_examine_def)
  ultimately show ?thesis by simp
qed

lemma eff_unex: "eff cs cats xml cats' \<Longrightarrow> unex cats' \<le> unex cats"
proof -
  assume "eff cs cats xml cats'"
  then have "mset (opened xml) + to_examine cats' = to_examine cats"
    by (simp add: eff_def)
  then have "size (to_examine cats) = size (mset (opened xml)) + size (to_examine cats')"
    by (metis size_union)
  then show ?thesis by (simp add: unex_size)
qed

lemma eff_nil: "eff cs cats [] cats"
  by (simp add: eff_def frame_refl)

lemma eff_append:
  assumes "eff cs a xs b" "eff cs b ys c"
  shows "eff cs a (xs @ ys) c"
  using assms by (auto simp: eff_def intro: frame_trans simp: add.assoc [symmetric] add.commute)

lemma eff_open:
  assumes i: "i < length cats" and ex: "cg_examine (cats ! i)"
    and sub_xml: "eff cs (cats[i := (cats ! i)\<lparr>cg_examine := False\<rparr>]) sub_xml cats1"
    and rest: "eff cs cats1 xml cats2"
  shows "eff cs cats (open_piece (cats ! i) # description_pieces (cats ! i) @ sub_xml
            @ codes_in cs (cg_catid (cats ! i)) @ close_piece # xml) cats2"
    and "eff cs cats (open_piece (cats ! i) # description_pieces (cats ! i)
            @ codes_in cs (cg_catid (cats ! i)) @ sub_xml @ close_piece # xml) cats2"
proof -
  let ?c = "cats ! i"
  let ?cats0 = "cats[i := ?c\<lparr>cg_examine := False\<rparr>]"
  have f: "frame cats cats2"
    using frame_flip [OF i ex] sub_xml rest by (auto simp: eff_def intro: frame_trans)
  from sub_xml have m1: "mset (opened sub_xml) + to_examine cats1 = to_examine ?cats0"
    by (simp add: eff_def)
  from rest have m2: "mset (opened xml) + to_examine cats2 = to_examine cats1"
    by (simp add: eff_def)
  have m: "add_mset (cg_catid ?c) (mset (opened sub_xml) + mset (opened xml)) + to_examine cats2
            = to_examine cats"
    using to_examine_flip [OF i ex] m1 m2 by (simp add: add.assoc)
  from sub_xml have c1: "mset (code_pieces sub_xml)
      = mset (concat (map (\<lambda>k. filter (\<lambda>co. co_catid co = Some k) cs) (opened sub_xml)))"
    by (simp add: eff_def)
  from rest have c2: "mset (code_pieces xml)
      = mset (concat (map (\<lambda>k. filter (\<lambda>co. co_catid co = Some k) cs) (opened xml)))"
    by (simp add: eff_def)
  show "eff cs cats (open_piece ?c # description_pieces ?c @ sub_xml
            @ codes_in cs (cg_catid ?c) @ close_piece # xml) cats2"
    using f m c1 c2 by (simp add: eff_def open_piece_def close_piece_def)
  show "eff cs cats (open_piece ?c # description_pieces ?c
            @ codes_in cs (cg_catid ?c) @ sub_xml @ close_piece # xml) cats2"
    using f m c1 c2 by (simp add: eff_def open_piece_def close_piece_def)
qed

lemma unex_flip:
  assumes "i < length cats" "cg_examine (cats ! i)"
  shows "Suc (unex (cats[i := (cats ! i)\<lparr>cg_examine := False\<rparr>])) = unex cats"
  using to_examine_flip [OF assms] by (simp add: unex_size) (metis size_add_mset)

lemma for_cats_ok:
  assumes sub: "sub_ok B cs sub"
  shows "unex cats \<le> B
     \<Longrightarrow> \<exists>xml cats'. for_cats sub cs cid is cats = Inr (xml, cats') \<and> eff cs cats xml cats'"
proof (induction "is" arbitrary: cats)
  case Nil
  show ?case by (simp add: eff_nil)
next
  case (Cons i "is")
  show ?case
  proof (cases "i < length cats \<and> cg_examine (cats ! i) \<and> Some cid = cg_supercatid (cats ! i)")
    case False
    then consider "\<not> i < length cats"
      | "i < length cats" "\<not> (cg_examine (cats ! i) \<and> Some cid = cg_supercatid (cats ! i))"
      by blast
    then show ?thesis
    proof cases
      case 1
      then show ?thesis by (simp add: eff_nil)
    next
      case 2
      then have "for_cats sub cs cid (i # is) cats = for_cats sub cs cid is cats"
        by (auto simp: Let_def)
      with Cons.IH [OF Cons.prems] show ?thesis by (simp only:)
    qed
  next
    case True
    then have i: "i < length cats" and ex: "cg_examine (cats ! i)"
      and ch: "Some cid = cg_supercatid (cats ! i)"
      by simp_all
    let ?c = "cats ! i"
    let ?cats0 = "cats[i := ?c\<lparr>cg_examine := False\<rparr>]"
    from unex_flip [OF i ex] Cons.prems have "unex ?cats0 < B" by simp
    with sub obtain sub_xml cats1 where
      s: "sub (cg_catid ?c) ?cats0 = Inr (sub_xml, cats1)" and e1: "eff cs ?cats0 sub_xml cats1"
      unfolding sub_ok_def by blast
    from eff_unex [OF e1] unex_flip [OF i ex] Cons.prems have "unex cats1 \<le> B" by simp
    from Cons.IH [OF this] obtain xml cats2 where
      r: "for_cats sub cs cid is cats1 = Inr (xml, cats2)" and e2: "eff cs cats1 xml cats2"
      by blast
    from eff_open(1) [OF i ex e1 e2] i ex ch s r show ?thesis
      by (simp add: Let_def)
  qed
qed

lemma while_unfinished_ok:
  assumes sub: "sub_ok B cs sub"
  shows "unex cats \<le> B
     \<Longrightarrow> \<exists>xml cats'. while_unfinished sub cs cid counter cats = Inr (xml, cats')
           \<and> eff cs cats xml cats'"
proof (induction "5000 - counter" arbitrary: counter cats)
  case 0
  then have "\<not> counter < 5000" by simp
  then show ?case
    by (subst while_unfinished.simps) (simp add: eff_nil)
next
  case (Suc n)
  then have lt: "counter < 5000" by simp
  from for_cats_ok [OF sub Suc.prems, of cid "[0..<length cats]"] obtain xml cats1 where
    f: "for_cats sub cs cid [0..<length cats] cats = Inr (xml, cats1)" and
    e1: "eff cs cats xml cats1"
    by blast
  show ?case
  proof (cases "list_ex cg_examine cats1")
    case False
    with lt f e1 show ?thesis
      by (subst while_unfinished.simps) simp
  next
    case True
    from eff_unex [OF e1] Suc.prems have b: "unex cats1 \<le> B" by simp
    from Suc.hyps(2) have "n = 5000 - (counter + 1)" by simp
    from Suc.hyps(1) [OF this b] obtain xml' cats2 where
      w: "while_unfinished sub cs cid (counter + 1) cats1 = Inr (xml', cats2)" and
      e2: "eff cs cats1 xml' cats2"
      by blast
    from eff_append [OF e1 e2] lt f True w show ?thesis
      by (subst while_unfinished.simps) simp
  qed
qed

lemma add_sub_categories_ok: "sub_ok frames cs (add_sub_categories frames cs)"
proof (induction frames)
  case 0
  show ?case by (simp add: sub_ok_def)
next
  case (Suc frames)
  show ?case
    unfolding sub_ok_def
  proof (intro allI impI)
    fix cid cats assume "unex cats < Suc frames"
    then have "unex cats \<le> frames" by simp
    from while_unfinished_ok [OF Suc this, of cid 0]
    show "\<exists>xml cats'. add_sub_categories (Suc frames) cs cid cats = Inr (xml, cats')
            \<and> eff cs cats xml cats'"
      by simp
  qed
qed

lemma top_cats_ok:
  "unex cats \<le> frames
   \<Longrightarrow> \<exists>xml cats'. top_cats frames cs is cats = Inr (xml, cats') \<and> eff cs cats xml cats'"
proof (induction "is" arbitrary: cats)
  case Nil
  show ?case by (simp add: eff_nil)
next
  case (Cons i "is")
  show ?case
  proof (cases "i < length cats \<and> cg_supercatid (cats ! i) = None \<and> cg_examine (cats ! i)")
    case False
    then consider "\<not> i < length cats"
      | "i < length cats" "\<not> (cg_supercatid (cats ! i) = None \<and> cg_examine (cats ! i))"
      by blast
    then show ?thesis
    proof cases
      case 1
      then show ?thesis by (simp add: eff_nil)
    next
      case 2
      then have "top_cats frames cs (i # is) cats = top_cats frames cs is cats"
        by (auto simp: Let_def)
      with Cons.IH [OF Cons.prems] show ?thesis by (simp only:)
    qed
  next
    case True
    then have i: "i < length cats" and ex: "cg_examine (cats ! i)"
      and top: "cg_supercatid (cats ! i) = None"
      by simp_all
    let ?c = "cats ! i"
    let ?cats0 = "cats[i := ?c\<lparr>cg_examine := False\<rparr>]"
    from unex_flip [OF i ex] Cons.prems have "unex ?cats0 < frames" by simp
    with add_sub_categories_ok [of frames cs] obtain sub_xml cats1 where
      s: "add_sub_categories frames cs (cg_catid ?c) ?cats0 = Inr (sub_xml, cats1)" and
      e1: "eff cs ?cats0 sub_xml cats1"
      unfolding sub_ok_def by blast
    from eff_unex [OF e1] unex_flip [OF i ex] Cons.prems have "unex cats1 \<le> frames" by simp
    from Cons.IH [OF this] obtain xml cats2 where
      r: "top_cats frames cs is cats1 = Inr (xml, cats2)" and e2: "eff cs cats1 xml cats2"
      by blast
    from eff_open(2) [OF i ex e1 e2] i ex top s r show ?thesis
      by (simp add: Let_def)
  qed
qed

lemma unex_le_length: "unex cats \<le> length cats"
  by (simp add: unex_def)

lemma codebook_xml_returns:
  assumes "0 < frames" "length cats \<le> frames"
  shows "\<exists>xml. codebook_xml frames cs cats = Inr xml"
proof -
  from assms unex_le_length [of cats] have "unex cats \<le> frames" by simp
  from top_cats_ok [OF this, of cs "[0..<length cats]"] assms(1) show ?thesis
    by (auto simp: codebook_xml_def)
qed

lemma frame_nth:
  assumes "frame a b" "i < length a"
  shows "cg_catid (b ! i) = cg_catid (a ! i)"
    and "cg_supercatid (b ! i) = cg_supercatid (a ! i)"
    and "cg_examine (b ! i) \<Longrightarrow> cg_examine (a ! i)"
proof -
  from assms have "b ! i = a ! i
      \<or> (cg_examine (a ! i) \<and> b ! i = (a ! i)\<lparr>cg_examine := False\<rparr>)"
    by (simp add: frame_def)
  then show "cg_catid (b ! i) = cg_catid (a ! i)"
    and "cg_supercatid (b ! i) = cg_supercatid (a ! i)"
    and "cg_examine (b ! i) \<Longrightarrow> cg_examine (a ! i)"
    by auto
qed

lemma frame_length: "frame a b \<Longrightarrow> length b = length a"
  by (simp add: frame_def)

lemma frame_links:
  assumes "frame a b"
  shows "links b = links a"
proof -
  have "map (\<lambda>c. (cg_catid c, cg_supercatid c)) b = map (\<lambda>c. (cg_catid c, cg_supercatid c)) a"
    by (rule nth_equalityI)
      (use assms in \<open>simp_all add: frame_length frame_nth(1,2)\<close>)
  then show ?thesis by (simp add: links_def)
qed

lemma child_done_mono:
  assumes "frame a b" "child_done cid a"
  shows "child_done cid b"
  unfolding child_done_def
proof (intro allI impI)
  fix j assume j: "j < length b" and p: "cg_supercatid (b ! j) = Some cid"
  from j assms(1) have ja: "j < length a" by (simp add: frame_length)
  from p frame_nth(2) [OF assms(1) ja] have "cg_supercatid (a ! j) = Some cid" by simp
  with assms(2) ja have "\<not> cg_examine (a ! j)" by (simp add: child_done_def)
  with frame_nth(3) [OF assms(1) ja] show "\<not> cg_examine (b ! j)" by blast
qed

lemma kids_done_mono:
  assumes "frame a b" "kids_done a i" "i < length a"
  shows "kids_done b i"
  using child_done_mono [OF assms(1)] assms(2) frame_nth(1) [OF assms(1,3)]
  by (simp add: kids_done_def)

lemma flipped_split:
  assumes "frame a b" "flipped a c i"
  shows "flipped a b i \<or> flipped b c i"
  using assms by (auto simp: flipped_def frame_length)

lemma under_trans_child:
  assumes "under L p k" "(p, Some r) \<in> L"
  shows "under L r k"
  using assms(1)
proof (induction rule: under.induct)
  case (child k)
  from under.child [OF assms(2)] child show ?case by (rule under.deeper)
next
  case (deeper q k)
  then show ?case by (blast intro: under.deeper)
qed

lemma under_rooted:
  assumes "under L p k" "rooted L p"
  shows "rooted L k"
  using assms(1)
proof (induction rule: under.induct)
  case (child k)
  with assms(2) show ?case by (blast intro: rooted.sub)
next
  case (deeper q k)
  then show ?case by (blast intro: rooted.sub)
qed

lemma nth_links: "i < length cats \<Longrightarrow> (cg_catid (cats ! i), cg_supercatid (cats ! i)) \<in> links cats"
  by (force simp: links_def in_set_conv_nth)

lemma walk_post_refl: "walk_post R cats cats"
  by (simp add: walk_post_def frame_refl flipped_def)

lemma walk_post_trans:
  assumes "walk_post R a b" "walk_post R b c"
  shows "walk_post R a c"
  unfolding walk_post_def
proof (rule conjI, goal_cases)
  case 1
  from assms show "frame a c" by (auto simp: walk_post_def intro: frame_trans)
next
  case 2
  from assms have fab: "frame a b" and fbc: "frame b c" by (simp_all add: walk_post_def)
  show ?case
  proof (intro allI impI)
  fix i assume fl: "flipped a c i"
  then have ia: "i < length a" by (simp add: flipped_def)
  from flipped_split [OF fab fl] show "kids_done c i \<and> R (cg_catid (a ! i))"
  proof
    assume "flipped a b i"
    with assms(1) have "kids_done b i" "R (cg_catid (a ! i))" by (simp_all add: walk_post_def)
    moreover from ia fab have "i < length b" by (simp add: frame_length)
    ultimately show ?thesis using kids_done_mono [OF fbc] by blast
  next
    assume "flipped b c i"
    with assms(2) have "kids_done c i" "R (cg_catid (b ! i))" by (simp_all add: walk_post_def)
    with frame_nth(1) [OF fab ia] show ?thesis by simp
  qed
  qed
qed

lemma walk_post_weaken:
  assumes "walk_post R a b" "\<And>k. R k \<Longrightarrow> R' k"
  shows "walk_post R' a b"
  using assms by (simp add: walk_post_def)

lemma walk_post_flip:
  assumes i: "i < length cats" and ex: "cg_examine (cats ! i)" and r: "R (cg_catid (cats ! i))"
    and w: "walk_post R (cats[i := (cats ! i)\<lparr>cg_examine := False\<rparr>]) cats1"
    and cd: "child_done (cg_catid (cats ! i)) cats1"
  shows "walk_post R cats cats1"
proof -
  let ?cats0 = "cats[i := (cats ! i)\<lparr>cg_examine := False\<rparr>]"
  from w have f01: "frame ?cats0 cats1" by (simp add: walk_post_def)
  from frame_trans [OF frame_flip [OF i ex] f01] have f: "frame cats cats1" .
  have "kids_done cats1 j \<and> R (cg_catid (cats ! j))" if fl: "flipped cats cats1 j" for j
  proof -
  from fl have j: "j < length cats" and ej: "cg_examine (cats ! j)" and nj: "\<not> cg_examine (cats1 ! j)"
    by (simp_all add: flipped_def)
  show "kids_done cats1 j \<and> R (cg_catid (cats ! j))"
  proof (cases "j = i")
    case True
    from frame_nth(1) [OF f i] cd have "kids_done cats1 i" by (simp add: kids_done_def)
    with True r show ?thesis by simp
  next
    case False
    with j ej nj have "flipped ?cats0 cats1 j" by (simp add: flipped_def)
    with w have "kids_done cats1 j" "R (cg_catid (?cats0 ! j))" by (simp_all add: walk_post_def)
    with False show ?thesis by simp
  qed
  qed
  with f show ?thesis by (simp add: walk_post_def)
qed

lemma links_flip:
  assumes "i < length cats" "cg_examine (cats ! i)"
  shows "links (cats[i := (cats ! i)\<lparr>cg_examine := False\<rparr>]) = links cats"
  using frame_links [OF frame_flip [OF assms]] .

lemma for_cats_post:
  assumes sp: "sub_post sub"
  shows "for_cats sub cs cid is cats = Inr (xml, cats') \<Longrightarrow> \<forall>i\<in>set is. i < length cats
     \<Longrightarrow> walk_post (under (links cats) cid) cats cats'
         \<and> (\<forall>i\<in>set is. cg_supercatid (cats ! i) = Some cid \<longrightarrow> \<not> cg_examine (cats' ! i))"
proof (induction "is" arbitrary: cats xml)
  case Nil
  then show ?case by (simp add: walk_post_refl)
next
  case (Cons i "is")
  from Cons.prems(2) have i: "i < length cats" and rest: "\<forall>j\<in>set is. j < length cats"
    by simp_all
  show ?case
  proof (cases "cg_examine (cats ! i) \<and> Some cid = cg_supercatid (cats ! i)")
    case False
    with i Cons.prems(1) have r: "for_cats sub cs cid is cats = Inr (xml, cats')"
      by (auto simp: Let_def)
    from Cons.IH [OF r rest] have w: "walk_post (under (links cats) cid) cats cats'"
      and v: "\<forall>j\<in>set is. cg_supercatid (cats ! j) = Some cid \<longrightarrow> \<not> cg_examine (cats' ! j)"
      by simp_all
    from w have f: "frame cats cats'" by (simp add: walk_post_def)
    have "cg_supercatid (cats ! i) = Some cid \<longrightarrow> \<not> cg_examine (cats' ! i)"
      using False frame_nth(3) [OF f i] by auto
    with w v show ?thesis by simp
  next
    case True
    then have ex: "cg_examine (cats ! i)" and ch: "cg_supercatid (cats ! i) = Some cid"
      by simp_all
    let ?c = "cats ! i"
    let ?cats0 = "cats[i := ?c\<lparr>cg_examine := False\<rparr>]"
    from Cons.prems(1) i True obtain sub_xml cats1 xml1 where
      s: "sub (cg_catid ?c) ?cats0 = Inr (sub_xml, cats1)" and
      r: "for_cats sub cs cid is cats1 = Inr (xml1, cats')"
      by (auto simp: Let_def split: sum.splits)
    from sp s have w0: "walk_post (under (links ?cats0) (cg_catid ?c)) ?cats0 cats1"
      and cd: "child_done (cg_catid ?c) cats1"
      unfolding sub_post_def by blast+
    have l0: "links ?cats0 = links cats" by (rule links_flip [OF i ex])
    have lk: "(cg_catid ?c, Some cid) \<in> links cats"
      using nth_links [OF i] ch by simp
    have w0': "walk_post (under (links cats) cid) ?cats0 cats1"
      by (rule walk_post_weaken [OF w0]) (simp add: l0 under_trans_child [OF _ lk])
    have w1: "walk_post (under (links cats) cid) cats cats1"
      by (rule walk_post_flip [OF i ex _ w0' cd]) (rule under.child [OF lk])
    then have f1: "frame cats cats1" by (simp add: walk_post_def)
    from rest f1 have rest1: "\<forall>j\<in>set is. j < length cats1" by (simp add: frame_length)
    from Cons.IH [OF r rest1] frame_links [OF f1]
    have w2: "walk_post (under (links cats) cid) cats1 cats'"
      and v: "\<forall>j\<in>set is. cg_supercatid (cats1 ! j) = Some cid \<longrightarrow> \<not> cg_examine (cats' ! j)"
      by simp_all
    from walk_post_trans [OF w1 w2] have w: "walk_post (under (links cats) cid) cats cats'" .
    then have f: "frame cats cats'" by (simp add: walk_post_def)
    from w2 have f2: "frame cats1 cats'" by (simp add: walk_post_def)
    have vi: "\<not> cg_examine (cats' ! i)"
    proof -
      have "\<not> cg_examine (?cats0 ! i)" using i by simp
      moreover from w0 have "frame ?cats0 cats1" by (simp add: walk_post_def)
      ultimately have "\<not> cg_examine (cats1 ! i)"
        using frame_nth(3) [of ?cats0 cats1 i] i by auto
      with frame_nth(3) [OF f2] i f1 show ?thesis by (auto simp: frame_length)
    qed
    have "\<forall>j\<in>set is. cg_supercatid (cats ! j) = Some cid \<longrightarrow> \<not> cg_examine (cats' ! j)"
      using v rest frame_nth(2) [OF f1] by simp
    with w vi show ?thesis by simp
  qed
qed

lemma all_visited_child_done:
  assumes "\<forall>i\<in>set [0..<length cats]. cg_supercatid (cats ! i) = Some cid
              \<longrightarrow> \<not> cg_examine (cats' ! i)"
    and "frame cats cats'"
  shows "child_done cid cats'"
  unfolding child_done_def
proof (intro allI impI)
  fix j assume j: "j < length cats'" and p: "cg_supercatid (cats' ! j) = Some cid"
  from j assms(2) have ja: "j < length cats" by (simp add: frame_length)
  with p frame_nth(2) [OF assms(2) ja] assms(1) show "\<not> cg_examine (cats' ! j)" by simp
qed

lemma while_unfinished_walk:
  assumes sp: "sub_post sub"
  shows "while_unfinished sub cs cid counter cats = Inr (xml, cats')
     \<Longrightarrow> walk_post (under (links cats) cid) cats cats'"
proof (induction "5000 - counter" arbitrary: counter cats xml)
  case 0
  then have "\<not> counter < 5000" by simp
  with 0(2) have "cats' = cats"
    by (subst (asm) while_unfinished.simps) simp
  then show ?case by (simp add: walk_post_refl)
next
  case (Suc n)
  then have lt: "counter < 5000" by simp
  from Suc.prems lt obtain xml1 cats1 where
    f: "for_cats sub cs cid [0..<length cats] cats = Inr (xml1, cats1)"
    by (subst (asm) while_unfinished.simps) (auto split: sum.splits)
  from for_cats_post [OF sp f] have w1: "walk_post (under (links cats) cid) cats cats1"
    by simp
  show ?case
  proof (cases "list_ex cg_examine cats1")
    case False
    with Suc.prems lt f have "cats' = cats1"
      by (subst (asm) while_unfinished.simps) simp
    with w1 show ?thesis by simp
  next
    case True
    with Suc.prems lt f obtain xml2 where
      w: "while_unfinished sub cs cid (counter + 1) cats1 = Inr (xml2, cats')"
      by (subst (asm) while_unfinished.simps) (auto split: sum.splits)
    from Suc.hyps(2) have "n = 5000 - (counter + 1)" by simp
    from Suc.hyps(1) [OF this w] have "walk_post (under (links cats1) cid) cats1 cats'" .
    moreover from w1 have "links cats1 = links cats"
      by (simp add: walk_post_def frame_links)
    ultimately show ?thesis using walk_post_trans [OF w1] by simp
  qed
qed

lemma while_unfinished_post:
  assumes sp: "sub_post sub" and lt: "counter < 5000"
    and w: "while_unfinished sub cs cid counter cats = Inr (xml, cats')"
  shows "walk_post (under (links cats) cid) cats cats' \<and> child_done cid cats'"
proof -
  from w lt obtain xml1 cats1 where
    f: "for_cats sub cs cid [0..<length cats] cats = Inr (xml1, cats1)"
    by (subst (asm) while_unfinished.simps) (auto split: sum.splits)
  from for_cats_post [OF sp f] have w1: "walk_post (under (links cats) cid) cats cats1"
    and v: "\<forall>i\<in>set [0..<length cats]. cg_supercatid (cats ! i) = Some cid
              \<longrightarrow> \<not> cg_examine (cats1 ! i)"
    by simp_all
  from w1 have f1: "frame cats cats1" by (simp add: walk_post_def)
  from all_visited_child_done [OF v f1] have cd1: "child_done cid cats1" .
  from while_unfinished_walk [OF sp w] have ww: "walk_post (under (links cats) cid) cats cats'" .
  have "frame cats1 cats'"
  proof (cases "list_ex cg_examine cats1")
    case False
    with w lt f have "cats' = cats1"
      by (subst (asm) while_unfinished.simps) simp
    then show ?thesis by (simp add: frame_refl)
  next
    case True
    with w lt f obtain xml2 where
      "while_unfinished sub cs cid (counter + 1) cats1 = Inr (xml2, cats')"
      by (subst (asm) while_unfinished.simps) (auto split: sum.splits)
    from while_unfinished_walk [OF sp this] show ?thesis by (simp add: walk_post_def)
  qed
  from child_done_mono [OF this cd1] ww show ?thesis by simp
qed

lemma add_sub_categories_post: "sub_post (add_sub_categories frames cs)"
proof (induction frames)
  case 0
  show ?case by (simp add: sub_post_def)
next
  case (Suc frames)
  show ?case
    unfolding sub_post_def
  proof (intro allI impI)
    fix cid cats xml cats'
    assume "add_sub_categories (Suc frames) cs cid cats = Inr (xml, cats')"
    then have "while_unfinished (add_sub_categories frames cs) cs cid 0 cats = Inr (xml, cats')"
      by simp
    from while_unfinished_post [OF Suc _ this]
    show "walk_post (under (links cats) cid) cats cats' \<and> child_done cid cats'"
      by simp
  qed
qed

lemma top_cats_post:
  "top_cats frames cs is cats = Inr (xml, cats') \<Longrightarrow> \<forall>i\<in>set is. i < length cats
     \<Longrightarrow> walk_post (rooted (links cats)) cats cats'
         \<and> (\<forall>i\<in>set is. cg_supercatid (cats ! i) = None \<longrightarrow> \<not> cg_examine (cats' ! i))"
proof (induction "is" arbitrary: cats xml)
  case Nil
  then show ?case by (simp add: walk_post_refl)
next
  case (Cons i "is")
  from Cons.prems(2) have i: "i < length cats" and rest: "\<forall>j\<in>set is. j < length cats"
    by simp_all
  show ?case
  proof (cases "cg_supercatid (cats ! i) = None \<and> cg_examine (cats ! i)")
    case False
    with i Cons.prems(1) have r: "top_cats frames cs is cats = Inr (xml, cats')"
      by (auto simp: Let_def)
    from Cons.IH [OF r rest] have w: "walk_post (rooted (links cats)) cats cats'"
      and v: "\<forall>j\<in>set is. cg_supercatid (cats ! j) = None \<longrightarrow> \<not> cg_examine (cats' ! j)"
      by simp_all
    from w have f: "frame cats cats'" by (simp add: walk_post_def)
    have "cg_supercatid (cats ! i) = None \<longrightarrow> \<not> cg_examine (cats' ! i)"
      using False frame_nth(3) [OF f i] by auto
    with w v show ?thesis by simp
  next
    case True
    then have ex: "cg_examine (cats ! i)" and tp: "cg_supercatid (cats ! i) = None"
      by simp_all
    let ?c = "cats ! i"
    let ?cats0 = "cats[i := ?c\<lparr>cg_examine := False\<rparr>]"
    from Cons.prems(1) i True obtain sub_xml cats1 xml1 where
      s: "add_sub_categories frames cs (cg_catid ?c) ?cats0 = Inr (sub_xml, cats1)" and
      r: "top_cats frames cs is cats1 = Inr (xml1, cats')"
      by (auto simp: Let_def split: sum.splits)
    from add_sub_categories_post [of frames cs] s
    have w0: "walk_post (under (links ?cats0) (cg_catid ?c)) ?cats0 cats1"
      and cd: "child_done (cg_catid ?c) cats1"
      unfolding sub_post_def by blast+
    have l0: "links ?cats0 = links cats" by (rule links_flip [OF i ex])
    have lk: "(cg_catid ?c, None) \<in> links cats"
      using nth_links [OF i] tp by simp
    have rt: "rooted (links cats) (cg_catid ?c)" by (rule rooted.top [OF lk])
    have w0': "walk_post (rooted (links cats)) ?cats0 cats1"
      by (rule walk_post_weaken [OF w0]) (simp add: l0 under_rooted [OF _ rt])
    have w1: "walk_post (rooted (links cats)) cats cats1"
      by (rule walk_post_flip [OF i ex rt w0' cd])
    then have f1: "frame cats cats1" by (simp add: walk_post_def)
    from rest f1 have rest1: "\<forall>j\<in>set is. j < length cats1" by (simp add: frame_length)
    from Cons.IH [OF r rest1] frame_links [OF f1]
    have w2: "walk_post (rooted (links cats)) cats1 cats'"
      and v: "\<forall>j\<in>set is. cg_supercatid (cats1 ! j) = None \<longrightarrow> \<not> cg_examine (cats' ! j)"
      by simp_all
    from walk_post_trans [OF w1 w2] have w: "walk_post (rooted (links cats)) cats cats'" .
    from w2 have f2: "frame cats1 cats'" by (simp add: walk_post_def)
    have vi: "\<not> cg_examine (cats' ! i)"
    proof -
      have "\<not> cg_examine (?cats0 ! i)" using i by simp
      moreover from w0 have "frame ?cats0 cats1" by (simp add: walk_post_def)
      ultimately have "\<not> cg_examine (cats1 ! i)"
        using frame_nth(3) [of ?cats0 cats1 i] i by auto
      with frame_nth(3) [OF f2] i f1 show ?thesis by (auto simp: frame_length)
    qed
    have "\<forall>j\<in>set is. cg_supercatid (cats ! j) = None \<longrightarrow> \<not> cg_examine (cats' ! j)"
      using v rest frame_nth(2) [OF f1] by simp
    with w vi show ?thesis by simp
  qed
qed

lemma count_list_filter:
  "count_list (filter P xs) x = (if P x then count_list xs x else 0)"
  by (induction xs) auto

lemma count_list_codes_of_opened:
  "count_list (concat (map (\<lambda>k. filter (\<lambda>co. co_catid co = Some k) cs) ks)) co
     = (case co_catid co of None \<Rightarrow> 0 | Some k \<Rightarrow> count_list ks k * count_list cs co)"
proof (induction ks)
  case Nil
  show ?case by (simp split: option.splits)
next
  case (Cons k ks)
  show ?case
    by (simp add: Cons.IH count_list_filter split: option.splits)
qed

lemma count_list_mset: "count_list xs x = count (mset xs) x"
  by (induction xs) simp_all

lemma opened_at_most_once:
  assumes e: "eff cs cats xml cats'" and d: "distinct (map cg_catid cats)"
  shows "count_list (opened xml) k \<le> 1"
proof -
  from e have "mset (opened xml) + to_examine cats' = to_examine cats"
    by (simp add: eff_def)
  then have "mset (opened xml) \<subseteq># to_examine cats"
    by (metis mset_subset_eq_add_left)
  moreover have "to_examine cats \<subseteq># mset (map cg_catid cats)"
    unfolding to_examine_def by (simp add: image_mset_subseteq_mono)
  ultimately have "mset (opened xml) \<subseteq># mset (map cg_catid cats)"
    by (rule subset_mset.order_trans)
  then have "count (mset (opened xml)) k \<le> count (mset (map cg_catid cats)) k"
    by (rule mset_subset_eq_count)
  moreover from d have "count (mset (map cg_catid cats)) k \<le> 1"
    by (metis count_list_mset distinct_count_atmost_1 le_refl zero_le_one)
  ultimately show ?thesis by (simp add: count_list_mset)
qed

lemma rooted_linked: "rooted L k \<Longrightarrow> \<exists>q. (k, q) \<in> L"
  by (induction rule: rooted.induct) blast+

lemma links_nth: "(k, q) \<in> links cats
    \<Longrightarrow> \<exists>i<length cats. cg_catid (cats ! i) = k \<and> cg_supercatid (cats ! i) = q"
  by (auto simp: links_def in_set_conv_nth)

lemma distinct_catid_nth:
  assumes "distinct (map cg_catid cats)" "i < length cats" "j < length cats"
    "cg_catid (cats ! i) = cg_catid (cats ! j)"
  shows "i = j"
  using nth_eq_iff_index_eq [OF assms(1), of i j] assms(2-4) by simp

lemma rooted_examined:
  assumes w: "walk_post (rooted (links cats)) cats cats'"
    and v: "\<forall>i<length cats. cg_supercatid (cats ! i) = None \<longrightarrow> \<not> cg_examine (cats' ! i)"
    and d: "distinct (map cg_catid cats)"
    and all: "list_all cg_examine cats"
  shows "rooted (links cats) k \<Longrightarrow> i < length cats \<Longrightarrow> cg_catid (cats ! i) = k
          \<Longrightarrow> \<not> cg_examine (cats' ! i)"
proof (induction arbitrary: i rule: rooted.induct)
  case (top k)
  from links_nth [OF top(1)] obtain j where
    j: "j < length cats" "cg_catid (cats ! j) = k" "cg_supercatid (cats ! j) = None"
    by blast
  with distinct_catid_nth [OF d top(2) j(1)] top(3) have "i = j" by simp
  with v j show ?case by simp
next
  case (sub p k)
  from w have f: "frame cats cats'" by (simp add: walk_post_def)
  from links_nth [OF sub(2)] obtain j where
    j: "j < length cats" "cg_catid (cats ! j) = k" "cg_supercatid (cats ! j) = Some p"
    by blast
  with distinct_catid_nth [OF d sub(4) j(1)] sub(5) have ij: "i = j" by simp
  from rooted_linked [OF sub(1)] obtain q where "(p, q) \<in> links cats" by blast
  from links_nth [OF this] obtain m where
    m: "m < length cats" "cg_catid (cats ! m) = p"
    by blast
  from sub(3) [OF m] have "\<not> cg_examine (cats' ! m)" .
  moreover from all m(1) have "cg_examine (cats ! m)" by (simp add: list_all_length)
  ultimately have "flipped cats cats' m" using m(1) by (simp add: flipped_def)
  with w have "kids_done cats' m" by (simp add: walk_post_def)
  then have "child_done p cats'"
    using frame_nth(1) [OF f m(1)] m(2) by (simp add: kids_done_def)
  moreover have "cg_supercatid (cats' ! i) = Some p"
    using frame_nth(2) [OF f sub(4)] ij j(3) by simp
  ultimately show ?case
    using sub(4) f by (simp add: child_done_def frame_length)
qed

lemma to_examine_count_zero:
  "count (to_examine cats) k = 0
     \<longleftrightarrow> (\<forall>i<length cats. cg_examine (cats ! i) \<longrightarrow> cg_catid (cats ! i) \<noteq> k)"
proof -
  have "count (to_examine cats) k = 0 \<longleftrightarrow> k \<notin> set (map cg_catid (filter cg_examine cats))"
    unfolding to_examine_def by (simp only: count_eq_zero_iff set_mset_mset)
  also have "\<dots> \<longleftrightarrow> (\<forall>c\<in>set cats. cg_examine c \<longrightarrow> cg_catid c \<noteq> k)"
    by auto
  also have "\<dots> \<longleftrightarrow> (\<forall>i<length cats. cg_examine (cats ! i) \<longrightarrow> cg_catid (cats ! i) \<noteq> k)"
    by (simp add: all_set_conv_all_nth)
  finally show ?thesis .
qed

lemma opened_exactly:
  assumes e: "eff cs cats xml cats'"
    and w: "walk_post (rooted (links cats)) cats cats'"
    and v: "\<forall>i<length cats. cg_supercatid (cats ! i) = None \<longrightarrow> \<not> cg_examine (cats' ! i)"
    and d: "distinct (map cg_catid cats)"
    and all: "list_all cg_examine cats"
  shows "count_list (opened xml) k = (if rooted (links cats) k then 1 else 0)"
proof -
  from w have f: "frame cats cats'" by (simp add: walk_post_def)
  from e have m: "mset (opened xml) + to_examine cats' = to_examine cats"
    by (simp add: eff_def)
  then have c: "count_list (opened xml) k + count (to_examine cats') k
      = count (to_examine cats) k"
    by (metis count_list_mset count_union)
  from all have "filter cg_examine cats = cats"
    by (simp add: list_all_iff)
  then have te: "to_examine cats = mset (map cg_catid cats)"
    by (simp only: to_examine_def)
  show ?thesis
  proof (cases "rooted (links cats) k")
    case True
    from rooted_linked [OF True] links_nth obtain i where
      i: "i < length cats" "cg_catid (cats ! i) = k"
      by blast
    have "\<forall>j<length cats'. cg_examine (cats' ! j) \<longrightarrow> cg_catid (cats' ! j) \<noteq> k"
    proof (intro allI impI)
      fix j assume j: "j < length cats'" and ej: "cg_examine (cats' ! j)"
      from j f have ja: "j < length cats" by (simp add: frame_length)
      show "cg_catid (cats' ! j) \<noteq> k"
      proof
        assume "cg_catid (cats' ! j) = k"
        with frame_nth(1) [OF f ja] have "cg_catid (cats ! j) = k" by simp
        from rooted_examined [OF w v d all True ja this] ej show False by simp
      qed
    qed
    then have z: "count (to_examine cats') k = 0"
      by (simp only: to_examine_count_zero)
    from i have "k \<in> set (map cg_catid cats)" by (force simp: in_set_conv_nth)
    with d have "count (mset (map cg_catid cats)) k = 1"
      by (metis count_list_mset distinct_count_atmost_1)
    with c z te True show ?thesis by simp
  next
    case False
    have "count_list (opened xml) k = 0"
    proof (rule ccontr)
      assume nz: "count_list (opened xml) k \<noteq> 0"
      with c have pos: "count (to_examine cats) k \<noteq> 0" by simp
      then obtain i where i: "i < length cats" "cg_examine (cats ! i)" "cg_catid (cats ! i) = k"
        using to_examine_count_zero [of cats k] by auto
      from d have "count (mset (map cg_catid cats)) k \<le> 1"
        by (metis count_list_mset distinct_count_atmost_1 le_refl zero_le_one)
      with c nz te have "count (to_examine cats') k = 0" by simp
      then have "\<forall>j<length cats'. cg_examine (cats' ! j) \<longrightarrow> cg_catid (cats' ! j) \<noteq> k"
        by (simp only: to_examine_count_zero)
      with i frame_nth(1) [OF f i(1)] f have "\<not> cg_examine (cats' ! i)"
        by (auto simp: frame_length)
      with i have "flipped cats cats' i" by (simp add: flipped_def)
      with w i have "rooted (links cats) k" by (auto simp: walk_post_def)
      with False show False by simp
    qed
    with False show ?thesis by simp
  qed
qed

lemma for_cats_mono:
  assumes m: "\<And>k c r. sub k c = Inr r \<Longrightarrow> sub' k c = Inr r"
  shows "for_cats sub cs cid is cats = Inr r \<Longrightarrow> for_cats sub' cs cid is cats = Inr r"
proof (induction "is" arbitrary: cats r)
  case Nil
  then show ?case by simp
next
  case (Cons i "is")
  show ?case
  proof (cases "i < length cats \<and> cg_examine (cats ! i) \<and> Some cid = cg_supercatid (cats ! i)")
    case False
    then consider "\<not> i < length cats"
      | "i < length cats" "\<not> (cg_examine (cats ! i) \<and> Some cid = cg_supercatid (cats ! i))"
      by blast
    then show ?thesis
    proof cases
      case 1
      with Cons.prems show ?thesis by simp
    next
      case 2
      then have e1: "for_cats sub cs cid (i # is) cats = for_cats sub cs cid is cats"
        and e2: "for_cats sub' cs cid (i # is) cats = for_cats sub' cs cid is cats"
        by (auto simp: Let_def)
      from Cons.prems have "for_cats sub cs cid is cats = Inr r"
        by (simp only: e1)
      from Cons.IH [OF this] show ?thesis
        by (simp only: e2)
    qed
  next
    case True
    let ?cats0 = "cats[i := (cats ! i)\<lparr>cg_examine := False\<rparr>]"
    from Cons.prems True obtain sub_xml cats1 xml1 cats2 where
      s: "sub (cg_catid (cats ! i)) ?cats0 = Inr (sub_xml, cats1)" and
      f: "for_cats sub cs cid is cats1 = Inr (xml1, cats2)" and
      r: "r = (open_piece (cats ! i) # description_pieces (cats ! i) @ sub_xml
                @ codes_in cs (cg_catid (cats ! i)) @ close_piece # xml1, cats2)"
      by (auto simp: Let_def split: sum.splits)
    from m [OF s] Cons.IH [OF f] True r show ?thesis
      by (simp add: Let_def)
  qed
qed

lemma while_unfinished_mono:
  assumes m: "\<And>k c r. sub k c = Inr r \<Longrightarrow> sub' k c = Inr r"
  shows "while_unfinished sub cs cid counter cats = Inr r
     \<Longrightarrow> while_unfinished sub' cs cid counter cats = Inr r"
proof (induction "5000 - counter" arbitrary: counter cats r)
  case 0
  then have "\<not> counter < 5000" by simp
  with 0(2) show ?case
    by (subst while_unfinished.simps, subst (asm) while_unfinished.simps) simp
next
  case (Suc n)
  then have lt: "counter < 5000" by simp
  from Suc.prems lt obtain xml1 cats1 where
    f: "for_cats sub cs cid [0..<length cats] cats = Inr (xml1, cats1)"
    by (subst (asm) while_unfinished.simps) (auto split: sum.splits)
  from for_cats_mono [OF m f]
  have f': "for_cats sub' cs cid [0..<length cats] cats = Inr (xml1, cats1)"
    by simp
  show ?case
  proof (cases "list_ex cg_examine cats1")
    case False
    with Suc.prems lt f have "r = (xml1, cats1)"
      by (subst (asm) while_unfinished.simps) simp
    with False lt f' show ?thesis
      by (subst while_unfinished.simps) simp
  next
    case True
    with Suc.prems lt f obtain xml2 cats2 where
      w: "while_unfinished sub cs cid (counter + 1) cats1 = Inr (xml2, cats2)" and
      r: "r = (xml1 @ xml2, cats2)"
      by (subst (asm) while_unfinished.simps) (auto split: sum.splits)
    from Suc.hyps(2) have "n = 5000 - (counter + 1)" by simp
    from Suc.hyps(1) [OF this w] True lt f' r show ?thesis
      by (subst while_unfinished.simps) simp
  qed
qed

lemma add_sub_categories_Suc:
  "add_sub_categories frames cs cid cats = Inr r
   \<Longrightarrow> add_sub_categories (Suc frames) cs cid cats = Inr r"
proof (induction frames arbitrary: cid cats r)
  case 0
  then show ?case by simp
next
  case (Suc frames)
  from Suc.prems have "while_unfinished (add_sub_categories frames cs) cs cid 0 cats = Inr r"
    by simp
  from while_unfinished_mono [of "add_sub_categories frames cs"
      "add_sub_categories (Suc frames) cs", OF Suc.IH this]
  show ?case by simp
qed

lemma add_sub_categories_mono:
  "frames \<le> frames' \<Longrightarrow> add_sub_categories frames cs cid cats = Inr r
   \<Longrightarrow> add_sub_categories frames' cs cid cats = Inr r"
proof (induction frames' arbitrary: cid cats r)
  case 0
  then show ?case by simp
next
  case (Suc frames')
  show ?case
  proof (cases "frames = Suc frames'")
    case True
    with Suc.prems show ?thesis by simp
  next
    case False
    with Suc.prems have "frames \<le> frames'" by simp
    from add_sub_categories_Suc [OF Suc.IH [OF this Suc.prems(2)]] show ?thesis .
  qed
qed

lemma top_cats_mono:
  assumes le: "frames \<le> frames'"
  shows "top_cats frames cs is cats = Inr r \<Longrightarrow> top_cats frames' cs is cats = Inr r"
proof (induction "is" arbitrary: cats r)
  case Nil
  then show ?case by simp
next
  case (Cons i "is")
  show ?case
  proof (cases "i < length cats \<and> cg_supercatid (cats ! i) = None \<and> cg_examine (cats ! i)")
    case False
    then consider "\<not> i < length cats"
      | "i < length cats" "\<not> (cg_supercatid (cats ! i) = None \<and> cg_examine (cats ! i))"
      by blast
    then show ?thesis
    proof cases
      case 1
      with Cons.prems show ?thesis by simp
    next
      case 2
      then have e1: "top_cats frames cs (i # is) cats = top_cats frames cs is cats"
        and e2: "top_cats frames' cs (i # is) cats = top_cats frames' cs is cats"
        by (auto simp: Let_def)
      from Cons.prems have "top_cats frames cs is cats = Inr r"
        by (simp only: e1)
      from Cons.IH [OF this] show ?thesis
        by (simp only: e2)
    qed
  next
    case True
    let ?cats0 = "cats[i := (cats ! i)\<lparr>cg_examine := False\<rparr>]"
    from Cons.prems True obtain sub_xml cats1 xml1 cats2 where
      s: "add_sub_categories frames cs (cg_catid (cats ! i)) ?cats0 = Inr (sub_xml, cats1)" and
      f: "top_cats frames cs is cats1 = Inr (xml1, cats2)" and
      r: "r = (open_piece (cats ! i) # description_pieces (cats ! i)
                @ codes_in cs (cg_catid (cats ! i)) @ sub_xml @ close_piece # xml1, cats2)"
      by (auto simp: Let_def split: sum.splits)
    from add_sub_categories_mono [OF le s] Cons.IH [OF f] True r show ?thesis
      by (simp add: Let_def)
  qed
qed

lemma opened_map_code [simp]: "opened (map Code_xml xs) = []"
  by (induction xs) simp_all

lemma code_pieces_map_code [simp]: "code_pieces (map Code_xml xs) = xs"
  by (induction xs) simp_all

text \<open>
  C9 (amended). Codebook export returns for every list of categories and codes, also
  when a parent id names no category and when categories are each other's parent,
  provided the interpreter still allows a nested call, and as many of them as there are
  categories; the result is the same for every such number. Without codes the result is
  the empty string, whatever the interpreter allows. With the category ids distinct (the primary key of the table), no
  category is emitted twice and no code is emitted more often than it is in the list of
  codes. With all categories still to examine, as \<open>get_categories\<close> leaves them, and at
  least one code, a category is emitted once when its chain of parents ends at a
  top-level category and not at all otherwise; a code without category is emitted as
  often as it is in the list of codes, and so is a code of a category that is emitted,
  while a code of a category that is not emitted is not emitted either.
\<close>

theorem codebook_xml_terminates_once:
  "\<exists>xml. (\<forall>frames. 0 < frames \<and> length cats \<le> frames
              \<longrightarrow> codebook_xml frames cs cats = Inr xml)
     \<and> (cs = [] \<longrightarrow> xml = [] \<and> render xml = []
          \<and> (\<forall>frames. codebook_xml frames cs cats = Inr []))
     \<and> (distinct (map cg_catid cats)
          \<longrightarrow> (\<forall>k. count_list (opened xml) k \<le> 1)
            \<and> (\<forall>co. count_list (code_pieces xml) co \<le> count_list cs co))
     \<and> (distinct (map cg_catid cats) \<and> list_all cg_examine cats \<and> cs \<noteq> []
          \<longrightarrow> (\<forall>k. count_list (opened xml) k = (if rooted (links cats) k then 1 else 0))
            \<and> (\<forall>co. count_list (code_pieces xml) co
                  = (case co_catid co of
                       None \<Rightarrow> count_list cs co
                     | Some k \<Rightarrow> if rooted (links cats) k then count_list cs co else 0)))"
proof (cases "cs = []")
  case True
  then have "\<forall>frames. 0 < frames \<and> length cats \<le> frames
      \<longrightarrow> codebook_xml frames cs cats = Inr []"
    by (simp add: codebook_xml_def)
  with True show ?thesis
    by (intro exI [of _ "[]"]) (simp add: render_def codebook_xml_def)
next
  case False
  let ?n = "length cats"
  from top_cats_ok [OF unex_le_length, of cats cs "[0..<?n]"] obtain xml0 cats' where
    t: "top_cats ?n cs [0..<?n] cats = Inr (xml0, cats')" and e: "eff cs cats xml0 cats'"
    by blast
  from top_cats_post [OF t] have w: "walk_post (rooted (links cats)) cats cats'"
    and v: "\<forall>i<length cats. cg_supercatid (cats ! i) = None \<longrightarrow> \<not> cg_examine (cats' ! i)"
    by simp_all
  let ?xml = "Raw (''<CodeBook>'' @ [CHR 0x0A]) # Raw (''<Codes>'' @ [CHR 0x0A])
                   # map Code_xml (filter (\<lambda>co. co_catid co = None) cs)
                   @ xml0 @ [Raw (''</Codes>'' @ [CHR 0x0A]), Raw (''</CodeBook>'' @ [CHR 0x0A])]"
  have ret: "\<forall>frames. 0 < frames \<and> ?n \<le> frames \<longrightarrow> codebook_xml frames cs cats = Inr ?xml"
  proof (intro allI impI)
    fix frames :: nat assume a: "0 < frames \<and> ?n \<le> frames"
    then have "?n \<le> frames" by simp
    from top_cats_mono [OF this t] False a show "codebook_xml frames cs cats = Inr ?xml"
      by (simp add: codebook_xml_def)
  qed
  have op: "opened ?xml = opened xml0" by simp
  have cp: "code_pieces ?xml = filter (\<lambda>co. co_catid co = None) cs @ code_pieces xml0" by simp
  from e have "mset (code_pieces xml0)
      = mset (concat (map (\<lambda>k. filter (\<lambda>co. co_catid co = Some k) cs) (opened xml0)))"
    by (simp add: eff_def)
  then have "count_list (code_pieces xml0) co
      = count_list (concat (map (\<lambda>k. filter (\<lambda>co. co_catid co = Some k) cs) (opened xml0))) co"
    for co
    by (simp add: count_list_mset)
  then have cnt: "count_list (code_pieces ?xml) co
      = (case co_catid co of None \<Rightarrow> count_list cs co
         | Some k \<Rightarrow> count_list (opened xml0) k * count_list cs co)" for co
    by (simp only: cp count_list_append count_list_filter count_list_codes_of_opened)
       (simp split: option.splits)
  have once: "(\<forall>k. count_list (opened ?xml) k \<le> 1)
            \<and> (\<forall>co. count_list (code_pieces ?xml) co \<le> count_list cs co)"
    if d: "distinct (map cg_catid cats)"
  proof (intro conjI allI)
    fix k show "count_list (opened ?xml) k \<le> 1"
      using opened_at_most_once [OF e d] by (simp only: op)
  next
    fix co
    show "count_list (code_pieces ?xml) co \<le> count_list cs co"
    proof (cases "co_catid co")
      case None
      then show ?thesis by (simp only: cnt) simp
    next
      case (Some k)
      from opened_at_most_once [OF e d, of k]
      have "count_list (opened xml0) k * count_list cs co \<le> 1 * count_list cs co"
        by (rule mult_le_mono1)
      with Some show ?thesis by (simp only: cnt) simp
    qed
  qed
  have exact: "(\<forall>k. count_list (opened ?xml) k = (if rooted (links cats) k then 1 else 0))
            \<and> (\<forall>co. count_list (code_pieces ?xml) co
                  = (case co_catid co of
                       None \<Rightarrow> count_list cs co
                     | Some k \<Rightarrow> if rooted (links cats) k then count_list cs co else 0))"
    if d: "distinct (map cg_catid cats)" and all: "list_all cg_examine cats"
  proof (intro conjI allI)
    fix k show "count_list (opened ?xml) k = (if rooted (links cats) k then 1 else 0)"
      using opened_exactly [OF e w v d all] by (simp only: op)
  next
    fix co
    show "count_list (code_pieces ?xml) co
                  = (case co_catid co of
                       None \<Rightarrow> count_list cs co
                     | Some k \<Rightarrow> if rooted (links cats) k then count_list cs co else 0)"
      by (simp only: cnt opened_exactly [OF e w v d all]) (simp split: option.splits)
  qed
  from ret once exact False show ?thesis
    by (intro exI [of _ ?xml]) blast
qed

text \<open>
  The example whose categories all hang below a top-level one, three levels deep, where
  three nested calls are allowed: the three categories are emitted once each, parents
  before children, and each code once.
\<close>

theorem codebook_xml_terminates_once_witness:
  "0 < (3 :: nat) \<and> length example_codebook_cats \<le> 3
   \<and> distinct (map cg_catid example_codebook_cats)
   \<and> list_all cg_examine example_codebook_cats
   \<and> example_codebook_codes \<noteq> []
   \<and> codebook_xml 3 example_codebook_codes example_codebook_cats
       = Inr [Raw (''<CodeBook>'' @ [CHR 0x0A]), Raw (''<Codes>'' @ [CHR 0x0A]),
              Code_xml (ex_code 1 None),
              Cat_open 10 ''g'' (Some ''cat''), Cat_open 11 ''g'' (Some ''cat''),
              Cat_open 12 ''g'' (Some ''cat''),
              Code_xml (ex_code 3 (Some 12)), Raw (''</Code>'' @ [CHR 0x0A]),
              Code_xml (ex_code 2 (Some 11)), Raw (''</Code>'' @ [CHR 0x0A]),
              Raw (''</Code>'' @ [CHR 0x0A]),
              Raw (''</Codes>'' @ [CHR 0x0A]), Raw (''</CodeBook>'' @ [CHR 0x0A])]
   \<and> rooted (links example_codebook_cats) 10
   \<and> rooted (links example_codebook_cats) 11
   \<and> rooted (links example_codebook_cats) 12"
proof -
  let ?cats = example_codebook_cats and ?cs = example_codebook_codes
  have h: "length ?cats \<le> 3" "distinct (map cg_catid ?cats)" "list_all cg_examine ?cats"
    "?cs \<noteq> []"
    by (simp_all add: example_codebook_cats_def example_codebook_codes_def ex_cat_def)
  have ev: "codebook_xml 3 ?cs ?cats
      = Inr [Raw (''<CodeBook>'' @ [CHR 0x0A]), Raw (''<Codes>'' @ [CHR 0x0A]),
              Code_xml (ex_code 1 None),
              Cat_open 10 ''g'' (Some ''cat''), Cat_open 11 ''g'' (Some ''cat''),
              Cat_open 12 ''g'' (Some ''cat''),
              Code_xml (ex_code 3 (Some 12)), Raw (''</Code>'' @ [CHR 0x0A]),
              Code_xml (ex_code 2 (Some 11)), Raw (''</Code>'' @ [CHR 0x0A]),
              Raw (''</Code>'' @ [CHR 0x0A]),
              Raw (''</Codes>'' @ [CHR 0x0A]), Raw (''</CodeBook>'' @ [CHR 0x0A])]"
    by (simp add: codebook_xml_def example_codebook_cats_def example_codebook_codes_def
        ex_cat_def ex_code_def while_unfinished.simps open_piece_def description_pieces_def
        codes_in_def close_piece_def convert_xml_predefined_entities_def Let_def upt_rec
        numeral_3_eq_3)
  from codebook_xml_terminates_once [of ?cats ?cs] obtain xml where
    r: "\<forall>frames. 0 < frames \<and> length ?cats \<le> frames \<longrightarrow> codebook_xml frames ?cs ?cats = Inr xml"
    and x: "distinct (map cg_catid ?cats) \<and> list_all cg_examine ?cats \<and> ?cs \<noteq> []
          \<longrightarrow> (\<forall>k. count_list (opened xml) k = (if rooted (links ?cats) k then 1 else 0))"
    by blast
  from r h(1) have "codebook_xml 3 ?cs ?cats = Inr xml" by simp
  with ev have xml: "xml = [Raw (''<CodeBook>'' @ [CHR 0x0A]), Raw (''<Codes>'' @ [CHR 0x0A]),
              Code_xml (ex_code 1 None),
              Cat_open 10 ''g'' (Some ''cat''), Cat_open 11 ''g'' (Some ''cat''),
              Cat_open 12 ''g'' (Some ''cat''),
              Code_xml (ex_code 3 (Some 12)), Raw (''</Code>'' @ [CHR 0x0A]),
              Code_xml (ex_code 2 (Some 11)), Raw (''</Code>'' @ [CHR 0x0A]),
              Raw (''</Code>'' @ [CHR 0x0A]),
              Raw (''</Codes>'' @ [CHR 0x0A]), Raw (''</CodeBook>'' @ [CHR 0x0A])]"
    by simp
  from x h have c: "count_list (opened xml) k = (if rooted (links ?cats) k then 1 else 0)" for k
    by blast
  have o: "opened xml = [10, 11, 12]"
    unfolding xml by simp
  have n: "count_list (opened xml) 10 = 1" "count_list (opened xml) 11 = 1"
    "count_list (opened xml) 12 = 1"
    by (simp_all only: o count_list.simps) simp_all
  have "rooted (links ?cats) k" if "count_list (opened xml) k = 1" for k
  proof (rule ccontr)
    assume "\<not> rooted (links ?cats) k"
    with c [of k] have "count_list (opened xml) k = 0" by (simp only: if_False)
    with that show False by simp
  qed
  from this [OF n(1)] this [OF n(2)] this [OF n(3)]
  have "rooted (links ?cats) 10" "rooted (links ?cats) 11" "rooted (links ?cats) 12" .
  with h show ?thesis
    unfolding ev by simp
qed

text \<open>
  C9 as stated fails, in two ways. With the ids distinct and every category still to
  examine, the export of the example with a missing parent and a parent cycle returns
  the code without category only: the categories 12, 13 and 14 and the code of category
  12 are emitted not once but never. And the export of the example nested three levels
  deep raises RecursionError where the interpreter allows only two nested calls.
\<close>

theorem codebook_xml_orphans_counterexample:
  "distinct (map cg_catid example_orphan_cats)
   \<and> list_all cg_examine example_orphan_cats
   \<and> map cg_catid example_orphan_cats = [12, 13, 14]
   \<and> codebook_xml 3 example_orphan_codes example_orphan_cats
       = Inr [Raw (''<CodeBook>'' @ [CHR 0x0A]), Raw (''<Codes>'' @ [CHR 0x0A]),
              Code_xml (ex_code 1 None),
              Raw (''</Codes>'' @ [CHR 0x0A]), Raw (''</CodeBook>'' @ [CHR 0x0A])]
   \<and> codebook_xml 2 example_codebook_codes example_codebook_cats = Inl RecursionError"
  by (simp add: codebook_xml_def example_orphan_cats_def example_orphan_codes_def
      example_codebook_cats_def example_codebook_codes_def
      ex_cat_def ex_code_def while_unfinished.simps open_piece_def description_pieces_def
      codes_in_def close_piece_def convert_xml_predefined_entities_def Let_def upt_rec
      numeral_3_eq_3 numeral_2_eq_2)

lemma chain_visited_step:
  assumes "Suc k < n"
  shows "(chain_visited n k)[Suc k := (chain_visited n k ! Suc k)\<lparr>cg_examine := False\<rparr>]
           = chain_visited n (Suc k)"
proof (rule nth_equalityI)
  show "length ((chain_visited n k)[Suc k := (chain_visited n k ! Suc k)\<lparr>cg_examine := False\<rparr>])
      = length (chain_visited n (Suc k))"
    by (simp add: chain_visited_def)
next
  fix i
  assume "i < length ((chain_visited n k)[Suc k := (chain_visited n k ! Suc k)\<lparr>cg_examine := False\<rparr>])"
  then have i: "i < n" by (simp add: chain_visited_def)
  show "(chain_visited n k)[Suc k := (chain_visited n k ! Suc k)\<lparr>cg_examine := False\<rparr>] ! i
      = chain_visited n (Suc k) ! i"
  proof (cases "i = Suc k")
    case True
    with assms show ?thesis by (simp add: chain_visited_def)
  next
    case False
    with i have "(k < i) = (Suc k < i)" by arith
    with False i show ?thesis by (simp add: chain_visited_def)
  qed
qed

lemma nested_chain_start:
  assumes "0 < n"
  shows "(nested_chain n)[0 := (nested_chain n ! 0)\<lparr>cg_examine := False\<rparr>] = chain_visited n 0"
proof (rule nth_equalityI)
  show "length ((nested_chain n)[0 := (nested_chain n ! 0)\<lparr>cg_examine := False\<rparr>])
      = length (chain_visited n 0)"
    by (simp add: chain_visited_def nested_chain_def)
next
  fix i
  assume "i < length ((nested_chain n)[0 := (nested_chain n ! 0)\<lparr>cg_examine := False\<rparr>])"
  then have i: "i < n" by (simp add: nested_chain_def)
  show "(nested_chain n)[0 := (nested_chain n ! 0)\<lparr>cg_examine := False\<rparr>] ! i
      = chain_visited n 0 ! i"
  proof (cases "i = 0")
    case True
    with assms show ?thesis by (simp add: chain_visited_def nested_chain_def ex_cat_def)
  next
    case False
    with i show ?thesis by (simp add: chain_visited_def nested_chain_def ex_cat_def)
  qed
qed

lemma for_cats_skip:
  assumes "\<forall>i\<in>set is. i < length cats
      \<and> \<not> (cg_examine (cats ! i) \<and> Some cid = cg_supercatid (cats ! i))"
  shows "for_cats sub cs cid (is @ js) cats = for_cats sub cs cid js cats"
  using assms by (induction "is") (auto simp: Let_def)

lemma add_sub_categories_chain_raises:
  "k < n \<Longrightarrow> frames < n - k
   \<Longrightarrow> add_sub_categories frames cs (int k) (chain_visited n k) = Inl RecursionError"
proof (induction frames arbitrary: k)
  case 0
  then show ?case by simp
next
  case (Suc frames)
  then have k: "Suc k < n" and d: "frames < n - Suc k" by simp_all
  let ?cats = "chain_visited n k"
  have len: "length ?cats = n" by (simp add: chain_visited_def)
  have split: "[0..<n] = [0..<Suc k] @ Suc k # [Suc (Suc k)..<n]"
    using k by (metis Suc_lessD less_imp_le_nat upt_add_eq_append upt_conv_Cons zero_le
        le_add_diff_inverse plus_nat.add_0)
  have skip: "\<forall>i\<in>set [0..<Suc k]. i < length ?cats
      \<and> \<not> (cg_examine (?cats ! i) \<and> Some (int k) = cg_supercatid (?cats ! i))"
    using k by (auto simp: chain_visited_def)
  have c: "cg_examine (?cats ! Suc k)" "cg_supercatid (?cats ! Suc k) = Some (int k)"
    "cg_catid (?cats ! Suc k) = int (Suc k)"
    using k by (simp_all add: chain_visited_def ex_cat_def)
  have "for_cats (add_sub_categories frames cs) cs (int k) [0..<n] ?cats
      = for_cats (add_sub_categories frames cs) cs (int k) (Suc k # [Suc (Suc k)..<n]) ?cats"
    by (simp only: split for_cats_skip [OF skip])
  also have "\<dots> = Inl RecursionError"
    using k c Suc.IH [OF k d]
    by (simp add: len Let_def chain_visited_step [OF k] del: upt_Suc)
  finally have "for_cats (add_sub_categories frames cs) cs (int k) [0..<n] ?cats
      = Inl RecursionError" .
  then show ?case
    by (simp add: len) (subst while_unfinished.simps, simp add: len)
qed

text \<open>
  The bound on the nested calls is the least one: on categories nested \<open>n\<close> levels
  deep the export raises RecursionError exactly when fewer than \<open>n\<close> nested calls are
  allowed.
\<close>

lemma nested_chain_raises:
  assumes "0 < n" "cs \<noteq> []"
  shows "codebook_xml frames cs (nested_chain n) = Inl RecursionError \<longleftrightarrow> frames < n"
proof
  assume r: "codebook_xml frames cs (nested_chain n) = Inl RecursionError"
  show "frames < n"
  proof (rule ccontr)
    assume "\<not> frames < n"
    with assms(1) have "0 < frames" "length (nested_chain n) \<le> frames"
      by (simp_all add: nested_chain_def)
    from codebook_xml_returns [OF this, of cs] r show False by auto
  qed
next
  assume f: "frames < n"
  show "codebook_xml frames cs (nested_chain n) = Inl RecursionError"
  proof (cases "frames = 0")
    case True
    with assms(2) show ?thesis by (simp add: codebook_xml_def)
  next
    case False
    have len: "length (nested_chain n) = n" by (simp add: nested_chain_def)
    have split: "[0..<n] = 0 # [1..<n]"
      using assms(1) by (simp add: upt_conv_Cons)
    have c: "cg_examine (nested_chain n ! 0)" "cg_supercatid (nested_chain n ! 0) = None"
      "cg_catid (nested_chain n ! 0) = int 0"
      using assms(1) by (simp_all add: nested_chain_def ex_cat_def)
    from add_sub_categories_chain_raises [of 0 n frames cs] assms(1) f
    have "add_sub_categories frames cs (int 0) (chain_visited n 0) = Inl RecursionError"
      by simp
    with c assms(1) have "top_cats frames cs [0..<n] (nested_chain n) = Inl RecursionError"
      by (simp only: split) (simp add: len Let_def nested_chain_start [OF assms(1)])
    with False assms(2) show ?thesis
      by (simp add: codebook_xml_def len)
  qed
qed

end
